theory Spec2Isabelle
  imports Complex_Main "HOL-Library.Word" "HOL-Library.Log_Nat"
begin

section \<open>Strings\<close>

text \<open>
  A JavaScript string is a sequence of UTF-16 code units. String literals of the source
  are written with \<open>js\<close>, which maps each ASCII character to its code unit.
\<close>

type_synonym jschar = "16 word"
type_synonym jsstring = "jschar list"

definition js :: "string \<Rightarrow> jsstring" where
  "js s = map of_char s"

definition is_digit :: "jschar \<Rightarrow> bool" where
  "is_digit c = (48 \<le> c \<and> c \<le> 57)"

definition is_upper :: "jschar \<Rightarrow> bool" where
  "is_upper c = (65 \<le> c \<and> c \<le> 90)"

definition is_lower :: "jschar \<Rightarrow> bool" where
  "is_lower c = (97 \<le> c \<and> c \<le> 122)"

definition is_letter :: "jschar \<Rightarrow> bool" where
  "is_letter c = (is_upper c \<or> is_lower c)"

text \<open>The class \<open>\w\<close>: ASCII letters, digits and the underscore.\<close>

definition is_word :: "jschar \<Rightarrow> bool" where
  "is_word c = (is_letter c \<or> is_digit c \<or> c = 95)"

text \<open>
  The class \<open>\s\<close>, which is also what \<open>trim\<close> removes: the WhiteSpace and
  LineTerminator code points of ECMAScript.
\<close>

definition is_space :: "jschar \<Rightarrow> bool" where
  "is_space c = (c = 9 \<or> c = 10 \<or> c = 11 \<or> c = 12 \<or> c = 13 \<or> c = 32 \<or> c = 160
     \<or> c = 5760 \<or> (8192 \<le> c \<and> c \<le> 8202) \<or> c = 8232 \<or> c = 8233 \<or> c = 8239
     \<or> c = 8287 \<or> c = 12288 \<or> c = 65279)"

definition lower_char :: "jschar \<Rightarrow> jschar" where
  "lower_char c = (if is_upper c then c + 32 else c)"

definition upper_char :: "jschar \<Rightarrow> jschar" where
  "upper_char c = (if is_lower c then c - 32 else c)"

text \<open>
  \<open>String.prototype.toLowerCase\<close>. The program applies it to the two groups of the
  letter-count pattern only, which hold ASCII word characters; there it is the ASCII
  mapping. Code units outside ASCII are left as they are.
\<close>

definition toLowerCase :: "jsstring \<Rightarrow> jsstring" where
  "toLowerCase s = map lower_char s"

definition trimStart :: "jsstring \<Rightarrow> jsstring" where
  "trimStart s = dropWhile is_space s"

definition trim :: "jsstring \<Rightarrow> jsstring" where
  "trim s = rev (dropWhile is_space (rev (dropWhile is_space s)))"

definition digit_val :: "jschar \<Rightarrow> int" where
  "digit_val c = uint (c - 48)"

definition digits_val :: "jsstring \<Rightarrow> int" where
  "digits_val ds = foldl (\<lambda>acc c. 10 * acc + digit_val c) 0 ds"

text \<open>The decimal digits of a non-negative integer.\<close>

function dec :: "int \<Rightarrow> jsstring" where
  "dec n = (if n < 10 then [48 + of_int n] else dec (n div 10) @ [48 + of_int (n mod 10)])"
  by pat_completeness auto
termination
  by (relation "measure nat") auto

declare dec.simps [simp del]

text \<open>The number of decimal digits of a positive integer.\<close>

function declen :: "int \<Rightarrow> int" where
  "declen n = (if n \<le> 0 then 0 else declen (n div 10) + 1)"
  by pat_completeness auto
termination
  by (relation "measure nat") auto

declare declen.simps [simp del]

section \<open>Numbers\<close>

text \<open>
  A JavaScript number is an IEEE 754 binary64 value. A finite value is kept as the
  rational it denotes; every operation rounds its exact result to the nearest
  representable value, ties to even (\<open>round64\<close>). The two zeros are identified: the
  program only divides by 100, by 1000 and by a value read from digits, which is never
  the negative zero, and no other operation it uses tells them apart.
\<close>

datatype number = NaN | PInf | NInf | Fin rat

text \<open>\<open>flog2 q\<close> is the integer \<open>e\<close> with \<open>2^e \<le> q < 2^(e+1)\<close>, for \<open>q > 0\<close>.\<close>

definition flog2 :: "rat \<Rightarrow> int" where
  "flog2 q = (if 1 \<le> q then bitlen \<lfloor>q\<rfloor> - 1 else - bitlen (\<lceil>1 / q\<rceil> - 1))"

definition round_half_even :: "rat \<Rightarrow> int" where
  "round_half_even m =
     (let f = \<lfloor>m\<rfloor>; d = m - of_int f
      in if d < 1 / 2 then f else if 1 / 2 < d then f + 1 else if even f then f else f + 1)"

definition round64 :: "rat \<Rightarrow> number" where
  "round64 q =
     (if q = 0 then Fin 0
      else let a = \<bar>q\<bar>;
               e = max (flog2 a) (- 1022);
               u = 2 powi (e - 52);
               v = of_int (round_half_even (a / u)) * u
           in if of_int (2 ^ 1024) \<le> v then (if 0 < q then PInf else NInf)
              else Fin (if 0 < q then v else - v))"

definition num_neg :: "number \<Rightarrow> number" where
  "num_neg x = (case x of NaN \<Rightarrow> NaN | PInf \<Rightarrow> NInf | NInf \<Rightarrow> PInf | Fin a \<Rightarrow> Fin (- a))"

definition num_add :: "number \<Rightarrow> number \<Rightarrow> number" where
  "num_add x y =
     (case (x, y) of
        (NaN, _) \<Rightarrow> NaN
      | (_, NaN) \<Rightarrow> NaN
      | (PInf, NInf) \<Rightarrow> NaN
      | (NInf, PInf) \<Rightarrow> NaN
      | (PInf, _) \<Rightarrow> PInf
      | (NInf, _) \<Rightarrow> NInf
      | (_, PInf) \<Rightarrow> PInf
      | (_, NInf) \<Rightarrow> NInf
      | (Fin a, Fin b) \<Rightarrow> round64 (a + b))"

definition num_sub :: "number \<Rightarrow> number \<Rightarrow> number" where
  "num_sub x y = num_add x (num_neg y)"

definition num_sgn :: "number \<Rightarrow> int" where
  "num_sgn x = (case x of NaN \<Rightarrow> 0 | PInf \<Rightarrow> 1 | NInf \<Rightarrow> - 1
                | Fin a \<Rightarrow> (if 0 < a then 1 else if a < 0 then - 1 else 0))"

definition signed_inf :: "int \<Rightarrow> number" where
  "signed_inf s = (if 0 < s then PInf else if s < 0 then NInf else NaN)"

definition num_mul :: "number \<Rightarrow> number \<Rightarrow> number" where
  "num_mul x y =
     (case (x, y) of
        (NaN, _) \<Rightarrow> NaN
      | (_, NaN) \<Rightarrow> NaN
      | (Fin a, Fin b) \<Rightarrow> round64 (a * b)
      | _ \<Rightarrow> signed_inf (num_sgn x * num_sgn y))"

text \<open>
  Division. A zero divisor is the positive zero (see above), so a non-zero dividend
  gives the infinity of its own sign, and \<open>0 / 0\<close> is \<open>NaN\<close>.
\<close>

definition num_div :: "number \<Rightarrow> number \<Rightarrow> number" where
  "num_div x y =
     (case (x, y) of
        (NaN, _) \<Rightarrow> NaN
      | (_, NaN) \<Rightarrow> NaN
      | (Fin a, Fin b) \<Rightarrow> (if b = 0 then signed_inf (num_sgn x) else round64 (a / b))
      | (Fin a, _) \<Rightarrow> Fin 0
      | (_, Fin b) \<Rightarrow> signed_inf (num_sgn x * (if b < 0 then - 1 else 1))
      | _ \<Rightarrow> NaN)"

definition num_abs :: "number \<Rightarrow> number" where
  "num_abs x = (case x of NaN \<Rightarrow> NaN | PInf \<Rightarrow> PInf | NInf \<Rightarrow> PInf | Fin a \<Rightarrow> Fin \<bar>a\<bar>)"

definition num_less :: "number \<Rightarrow> number \<Rightarrow> bool" where
  "num_less x y =
     (case (x, y) of
        (NaN, _) \<Rightarrow> False
      | (_, NaN) \<Rightarrow> False
      | (Fin a, Fin b) \<Rightarrow> a < b
      | (_, NInf) \<Rightarrow> False
      | (PInf, _) \<Rightarrow> False
      | _ \<Rightarrow> True)"

text \<open>Strict equality \<open>===\<close> on numbers: \<open>NaN\<close> equals nothing.\<close>

definition num_eq :: "number \<Rightarrow> number \<Rightarrow> bool" where
  "num_eq x y = (x \<noteq> NaN \<and> x = y)"

text \<open>Truthiness of a number, as \<open>||\<close> tests it.\<close>

definition num_truthy :: "number \<Rightarrow> bool" where
  "num_truthy x = (x \<noteq> NaN \<and> x \<noteq> Fin 0)"

text \<open>A numeric literal of the source denotes the number nearest to it.\<close>

definition lit :: "rat \<Rightarrow> number" where
  "lit q = round64 q"


section \<open>Conversions between strings and numbers\<close>

text \<open>
  The digit value of a character in the radices up to 36; a character that is no digit
  gets 36.
\<close>

definition char_digit :: "jschar \<Rightarrow> int" where
  "char_digit c =
     (if is_digit c then uint (c - 48)
      else if is_lower c then uint (c - 87)
      else if is_upper c then uint (c - 55)
      else 36)"

definition radix_digit :: "int \<Rightarrow> jschar \<Rightarrow> bool" where
  "radix_digit R c = (char_digit c < R)"

definition radix_val :: "int \<Rightarrow> jsstring \<Rightarrow> int" where
  "radix_val R ds = foldl (\<lambda>acc c. R * acc + char_digit c) 0 ds"

text \<open>
  \<open>parseInt\<close> with no radix argument: leading white space is skipped, a sign and the
  prefix \<open>0x\<close> are read, then the longest run of digits. The integer read is rounded
  to the nearest number. (Beyond twenty significant digits ECMAScript lets an
  implementation round a decimal text less exactly; here and in the other conversions
  of decimal texts the model rounds the exact value.)
\<close>

definition parseInt :: "jsstring \<Rightarrow> number" where
  "parseInt str =
     (let s = trimStart str;
          neg = (s \<noteq> [] \<and> hd s = 45);
          s1 = (if s \<noteq> [] \<and> (hd s = 43 \<or> hd s = 45) then tl s else s);
          hex = (case s1 of a # b # _ \<Rightarrow> a = 48 \<and> (b = 120 \<or> b = 88) | _ \<Rightarrow> False);
          R = (if hex then 16 else 10);
          s2 = (if hex then drop 2 s1 else s1);
          z = takeWhile (radix_digit R) s2
      in if z = [] then NaN
         else if neg then num_neg (round64 (of_int (radix_val R z)))
         else round64 (of_int (radix_val R z)))"

text \<open>
  The longest prefix that is an unsigned decimal literal (\<open>Infinity\<close>, or digits with an
  optional fraction and an optional exponent), its value and the rest of the string.
\<close>

definition scan_exponent :: "jsstring \<Rightarrow> int \<times> jsstring" where
  "scan_exponent s =
     (case s of
        [] \<Rightarrow> (0, s)
      | e # t \<Rightarrow>
          if e = 101 \<or> e = 69 then
            (let neg = (t \<noteq> [] \<and> hd t = 45);
                 t1 = (if t \<noteq> [] \<and> (hd t = 43 \<or> hd t = 45) then tl t else t);
                 ds = takeWhile is_digit t1
             in if ds = [] then (0, s)
                else ((if neg then - digits_val ds else digits_val ds),
                      dropWhile is_digit t1))
          else (0, s))"

definition scan_unsigned :: "jsstring \<Rightarrow> (number \<times> jsstring) option" where
  "scan_unsigned s =
     (if take 8 s = js ''Infinity'' then Some (PInf, drop 8 s)
      else let ip = takeWhile is_digit s;
               r1 = dropWhile is_digit s;
               dot = (r1 \<noteq> [] \<and> hd r1 = 46);
               fp = (if dot then takeWhile is_digit (tl r1) else []);
               r2 = (if dot then dropWhile is_digit (tl r1) else r1)
           in if ip = [] \<and> fp = [] then None
              else let (ex, r3) = scan_exponent r2
                   in Some (round64 (of_int (digits_val (ip @ fp)) * 10 powi (ex - int (length fp))),
                            r3))"

definition scan_signed :: "jsstring \<Rightarrow> (number \<times> jsstring) option" where
  "scan_signed s =
     (let neg = (s \<noteq> [] \<and> hd s = 45);
          s1 = (if s \<noteq> [] \<and> (hd s = 43 \<or> hd s = 45) then tl s else s)
      in case scan_unsigned s1 of
           None \<Rightarrow> None
         | Some (v, r) \<Rightarrow> Some (if neg then num_neg v else v, r))"

definition parseFloat :: "jsstring \<Rightarrow> number" where
  "parseFloat str = (case scan_signed (trimStart str) of None \<Rightarrow> NaN | Some (v, _) \<Rightarrow> v)"

text \<open>
  The conversion of a string to a number (\<open>ToNumber\<close> on a string): white space is
  trimmed on both sides, the empty string is 0, and the rest is a literal in radix 16, 8
  or 2 or a signed decimal literal that takes the whole string; anything else is \<open>NaN\<close>.
\<close>

definition StringToNumber :: "jsstring \<Rightarrow> number" where
  "StringToNumber str =
     (let s = trim str
      in if s = [] then Fin 0
         else let R = (case s of
                         a # b # _ \<Rightarrow>
                           if a \<noteq> 48 then 0
                           else if b = 120 \<or> b = 88 then 16
                           else if b = 111 \<or> b = 79 then 8
                           else if b = 98 \<or> b = 66 then 2
                           else 0
                       | _ \<Rightarrow> (0::int))
              in if R \<noteq> 0 then
                   (if drop 2 s \<noteq> [] \<and> list_all (radix_digit R) (drop 2 s)
                    then round64 (of_int (radix_val R (drop 2 s))) else NaN)
                 else (case scan_signed s of
                         Some (v, []) \<Rightarrow> v
                       | _ \<Rightarrow> NaN))"

text \<open>
  \<open>Number.prototype.toString\<close>. For a positive finite \<open>q\<close>, \<open>decimal_exponent q\<close> is
  the \<open>n\<close> with \<open>10^(n-1) \<le> q < 10^n\<close>, and \<open>shortest_digits\<close> finds the least number
  \<open>k\<close> of digits and the \<open>k\<close>-digit integer \<open>s\<close> such that \<open>s * 10^(n-k)\<close> rounds to
  \<open>q\<close>, taking the \<open>s\<close> nearest to \<open>q\<close> when two qualify. Seventeen digits are enough
  for every number, so the search ends before its bound.
\<close>

definition decimal_exponent :: "rat \<Rightarrow> int" where
  "decimal_exponent q =
     (if 1 \<le> q then declen \<lfloor>q\<rfloor> else 1 - declen (\<lceil>1 / q\<rceil> - 1))"

definition digits_candidate :: "rat \<Rightarrow> nat \<Rightarrow> (int \<times> int) option" where
  "digits_candidate q k =
     (let n = decimal_exponent q;
          sc = 10 powi (n - int k);
          lo = \<lfloor>q / sc\<rfloor>;
          hi = lo + 1;
          ok_lo = (round64 (of_int lo * sc) = Fin q);
          ok_hi = (round64 (of_int hi * sc) = Fin q);
          d_lo = q - of_int lo * sc;
          d_hi = of_int hi * sc - q;
          s = (if ok_lo \<and> ok_hi then
                 (if d_lo < d_hi then lo else if d_hi < d_lo then hi
                  else if even lo then lo else hi)
               else if ok_lo then lo else hi)
      in if ok_lo \<or> ok_hi then (if s = 10 ^ k then Some (10 ^ (k - 1), n + 1) else Some (s, n))
         else None)"

fun shortest_digits :: "rat \<Rightarrow> nat \<Rightarrow> nat \<Rightarrow> nat \<times> int \<times> int" where
  "shortest_digits q k 0 = (k, \<lfloor>q / 10 powi (decimal_exponent q - int k)\<rfloor>, decimal_exponent q)"
| "shortest_digits q k (Suc m) =
     (case digits_candidate q k of
        Some (s, n) \<Rightarrow> (k, s, n)
      | None \<Rightarrow> shortest_digits q (Suc k) m)"

definition positive_toString :: "rat \<Rightarrow> jsstring" where
  "positive_toString q =
     (let (k, s, n) = shortest_digits q 1 17;
          ds = dec s
      in if int k \<le> n \<and> n \<le> 21 then ds @ replicate (nat (n - int k)) 48
         else if 0 < n \<and> n \<le> 21 then take (nat n) ds @ [46] @ drop (nat n) ds
         else if - 6 < n \<and> n \<le> 0 then [48, 46] @ replicate (nat (- n)) 48 @ ds
         else let ex = (if 0 \<le> n - 1 then [43] else [45]) @ dec \<bar>n - 1\<bar>
              in if k = 1 then ds @ [101] @ ex
                 else take 1 ds @ [46] @ drop 1 ds @ [101] @ ex)"

definition Number_toString :: "number \<Rightarrow> jsstring" where
  "Number_toString x =
     (case x of
        NaN \<Rightarrow> js ''NaN''
      | PInf \<Rightarrow> js ''Infinity''
      | NInf \<Rightarrow> js ''-Infinity''
      | Fin q \<Rightarrow> (if q = 0 then js ''0''
                  else if q < 0 then [45] @ positive_toString (- q)
                  else positive_toString q))"


section \<open>Regular expressions\<close>

text \<open>
  The patterns of the program use character classes, sequences, alternatives, the greedy
  quantifiers \<open>?\<close>, \<open>*\<close>, \<open>+\<close> and capturing groups. A matcher maps a state (the rest of
  the input and the groups captured so far) to the list of the states in which a match can
  end, in the order in which the backtracking matcher of ECMAScript tries them; the head
  of the list is the match it returns.
\<close>

datatype regex =
    Eps
  | Class "jschar \<Rightarrow> bool"
  | Seq regex regex
  | Alt regex regex
  | Opt regex
  | Star regex
  | Group nat regex

type_synonym mstate = "jsstring \<times> jsstring option list"

text \<open>
  An iteration of a quantifier that consumes nothing is rejected, so a quantifier
  iterates at most as often as there are characters left: the bound \<open>n\<close> is never
  reached when it starts at the length of the rest.
\<close>

primrec star_iter :: "(mstate \<Rightarrow> mstate list) \<Rightarrow> nat \<Rightarrow> mstate \<Rightarrow> mstate list" where
  "star_iter f 0 st = [st]"
| "star_iter f (Suc n) st =
     concat (map (star_iter f n) (filter (\<lambda>st'. length (fst st') < length (fst st)) (f st)))
       @ [st]"

primrec matcher :: "regex \<Rightarrow> mstate \<Rightarrow> mstate list" where
  "matcher Eps st = [st]"
| "matcher (Class P) st =
     (case fst st of [] \<Rightarrow> [] | c # cs \<Rightarrow> if P c then [(cs, snd st)] else [])"
| "matcher (Seq a b) st = concat (map (matcher b) (matcher a st))"
| "matcher (Alt a b) st = matcher a st @ matcher b st"
| "matcher (Opt a) st =
     filter (\<lambda>st'. length (fst st') < length (fst st)) (matcher a st) @ [st]"
| "matcher (Star a) st = star_iter (matcher a) (length (fst st)) st"
| "matcher (Group i a) st =
     map (\<lambda>st'. (fst st',
                 (snd st')[i := Some (take (length (fst st) - length (fst st')) (fst st))]))
       (matcher a st)"

definition Plus :: "regex \<Rightarrow> regex" where
  "Plus r = Seq r (Star r)"

definition Chr :: "jschar \<Rightarrow> regex" where
  "Chr c = Class (\<lambda>x. x = c)"

text \<open>
  With the flag \<open>i\<close> two characters match when their canonical forms are equal. For an
  ASCII character the canonical form is its upper case. For a code unit from 128 on it is
  again a code unit from 128 on, so it never matches an ASCII character; \<open>upper_char\<close>
  leaves it as it is, which gives the same matches, every character of the patterns being
  ASCII.
\<close>

definition Chr_i :: "jschar \<Rightarrow> regex" where
  "Chr_i c = Class (\<lambda>x. upper_char x = upper_char c)"

definition Str_i :: "string \<Rightarrow> regex" where
  "Str_i s = foldr (\<lambda>c r. Seq (Chr_i (of_char c)) r) s Eps"

text \<open>A sequence of terms.\<close>

definition Seqs :: "regex list \<Rightarrow> regex" where
  "Seqs rs = foldr Seq rs Eps"

text \<open>
  \<open>regex_exec r n s\<close> is the search that \<open>String.prototype.match\<close> makes with a
  pattern without the flag \<open>g\<close> and with \<open>n\<close> groups: the match is tried at each
  position from the left, and the first success gives the matched text, the rest of the
  input after it and the groups. The groups are numbered from 1 as in the source; place 0
  of the list is not used, the matched text being given apart.
\<close>

fun regex_exec :: "regex \<Rightarrow> nat \<Rightarrow> jsstring \<Rightarrow> (jsstring \<times> jsstring \<times> jsstring option list) option" where
  "regex_exec r n s =
     (case matcher r (s, replicate (Suc n) None) of
        st # _ \<Rightarrow> Some (take (length s - length (fst st)) s, fst st, snd st)
      | [] \<Rightarrow> (case s of [] \<Rightarrow> None | _ # cs \<Rightarrow> regex_exec r n cs))"

declare regex_exec.simps [simp del]

text \<open>
  \<open>String.prototype.match\<close> with the flag \<open>g\<close>: the list of all matched texts, each
  search starting where the last match ended (one further when that match was empty).
  The bound counts the searches, at most one more than the length of the input.
\<close>

primrec match_all_iter :: "regex \<Rightarrow> nat \<Rightarrow> jsstring \<Rightarrow> jsstring list" where
  "match_all_iter r 0 s = []"
| "match_all_iter r (Suc k) s =
     (case regex_exec r 0 s of
        None \<Rightarrow> []
      | Some (w, rest, _) \<Rightarrow>
          w # (if w = [] then (case rest of [] \<Rightarrow> [] | _ # cs \<Rightarrow> match_all_iter r k cs)
               else match_all_iter r k rest))"

definition match_all :: "regex \<Rightarrow> jsstring \<Rightarrow> jsstring list" where
  "match_all r s = match_all_iter r (Suc (length s)) s"

text \<open>
  \<open>String.prototype.split\<close> with a pattern. \<open>piece\<close> is the text between the end of
  the last separator and the current position, \<open>rest\<close> the input from the current
  position on. At each position the pattern is tried there only; a match that ends where
  the last separator ended is skipped. The bound counts the steps: at most two for each
  character. The limit of \<open>2^32 - 1\<close> pieces, which no string shorter than \<open>2^32\<close>
  reaches, is left out; the patterns used for splitting have no groups.
\<close>

primrec split_iter :: "regex \<Rightarrow> nat \<Rightarrow> jsstring \<Rightarrow> jsstring \<Rightarrow> jsstring list" where
  "split_iter r 0 piece rest = [piece @ rest]"
| "split_iter r (Suc k) piece rest =
     (case rest of
        [] \<Rightarrow> [piece]
      | c # cs \<Rightarrow>
          (case matcher r (rest, []) of
             [] \<Rightarrow> split_iter r k (piece @ [c]) cs
           | st # _ \<Rightarrow>
               if piece = [] \<and> length (fst st) = length rest
               then split_iter r k (piece @ [c]) cs
               else piece # split_iter r k [] (fst st)))"

definition split :: "regex \<Rightarrow> jsstring \<Rightarrow> jsstring list" where
  "split r s =
     (if s = [] then (case matcher r (s, []) of [] \<Rightarrow> [s] | _ \<Rightarrow> [])
      else split_iter r (2 * length s + 1) [] s)"


section \<open>JSON\<close>

datatype json =
    JNull
  | JBool bool
  | JNum number
  | JStr jsstring
  | JArr "json list"
  | JObj "(jsstring \<times> json) list"

definition json_ws :: "jschar \<Rightarrow> bool" where
  "json_ws c = (c = 32 \<or> c = 9 \<or> c = 10 \<or> c = 13)"

definition skip_ws :: "jsstring \<Rightarrow> jsstring" where
  "skip_ws s = dropWhile json_ws s"

definition is_hex :: "jschar \<Rightarrow> bool" where
  "is_hex c = radix_digit 16 c"

definition unescape :: "jschar \<Rightarrow> jschar option" where
  "unescape e =
     (if e = 34 \<or> e = 92 \<or> e = 47 then Some e
      else if e = 98 then Some 8
      else if e = 102 then Some 12
      else if e = 110 then Some 10
      else if e = 114 then Some 13
      else if e = 116 then Some 9
      else None)"

text \<open>The characters of a string literal after its opening quote, and what follows it.\<close>

fun json_string :: "jsstring \<Rightarrow> jsstring \<Rightarrow> (jsstring \<times> jsstring) option" where
  "json_string acc [] = None"
| "json_string acc (c # cs) =
     (if c = 34 then Some (acc, cs)
      else if c < 32 then None
      else if c \<noteq> 92 then json_string (acc @ [c]) cs
      else (case cs of
              [] \<Rightarrow> None
            | e # r \<Rightarrow>
                if e = 117 then
                  (if 4 \<le> length r \<and> list_all is_hex (take 4 r)
                   then json_string (acc @ [of_int (radix_val 16 (take 4 r))]) (drop 4 r)
                   else None)
                else (case unescape e of
                        None \<Rightarrow> None
                      | Some x \<Rightarrow> json_string (acc @ [x]) r)))"

text \<open>
  A number literal: an optional minus sign, an integer part without a superfluous leading
  zero, an optional fraction and an optional exponent, each with at least one digit.
\<close>

definition json_number :: "jsstring \<Rightarrow> (number \<times> jsstring) option" where
  "json_number s =
     (let neg = (s \<noteq> [] \<and> hd s = 45);
          s1 = (if neg then tl s else s);
          ip = (if s1 \<noteq> [] \<and> hd s1 = 48 then [48] else takeWhile is_digit s1);
          r1 = drop (length ip) s1;
          dot = (r1 \<noteq> [] \<and> hd r1 = 46);
          fp = (if dot then takeWhile is_digit (tl r1) else []);
          r2 = (if dot then dropWhile is_digit (tl r1) else r1);
          ex = (r2 \<noteq> [] \<and> (hd r2 = 101 \<or> hd r2 = 69));
          r3 = (if ex then tl r2 else r2);
          eneg = (ex \<and> r3 \<noteq> [] \<and> hd r3 = 45);
          r4 = (if ex \<and> r3 \<noteq> [] \<and> (hd r3 = 43 \<or> hd r3 = 45) then tl r3 else r3);
          ed = (if ex then takeWhile is_digit r4 else []);
          r5 = (if ex then dropWhile is_digit r4 else r2);
          e = (if eneg then - digits_val ed else digits_val ed);
          v = round64 (of_int (digits_val (ip @ fp)) * 10 powi (e - int (length fp)))
      in if ip = [] \<or> (dot \<and> fp = []) \<or> (ex \<and> ed = []) then None
         else Some (if neg then num_neg v else v, r5))"

text \<open>
  A member of an object defines a property: a name that occurs again replaces the value
  and keeps its place.
\<close>

fun obj_put :: "jsstring \<Rightarrow> json \<Rightarrow> (jsstring \<times> json) list \<Rightarrow> (jsstring \<times> json) list" where
  "obj_put k v [] = [(k, v)]"
| "obj_put k v ((k', v') # kvs) =
     (if k = k' then (k, v) # kvs else (k', v') # obj_put k v kvs)"

text \<open>
  The parser of \<open>JSON.parse\<close>, by recursive descent. The first argument bounds the depth
  of the calls; between two calls at least one character is read at every second call, so
  twice the length of the text is never reached.
\<close>

fun json_value :: "nat \<Rightarrow> jsstring \<Rightarrow> (json \<times> jsstring) option"
  and json_elements :: "nat \<Rightarrow> json list \<Rightarrow> jsstring \<Rightarrow> (json \<times> jsstring) option"
  and json_members :: "nat \<Rightarrow> (jsstring \<times> json) list \<Rightarrow> jsstring \<Rightarrow> (json \<times> jsstring) option"
where
  "json_value 0 s = None"
| "json_value (Suc n) s =
     (case skip_ws s of
        [] \<Rightarrow> None
      | c # cs \<Rightarrow>
          if c = 123 then
            (case skip_ws cs of
               [] \<Rightarrow> None
             | d # ds \<Rightarrow> if d = 125 then Some (JObj [], ds) else json_members n [] cs)
          else if c = 91 then
            (case skip_ws cs of
               [] \<Rightarrow> None
             | d # ds \<Rightarrow> if d = 93 then Some (JArr [], ds) else json_elements n [] cs)
          else if c = 34 then
            (case json_string [] cs of None \<Rightarrow> None | Some (str, r) \<Rightarrow> Some (JStr str, r))
          else if take 4 (c # cs) = js ''true'' then Some (JBool True, drop 4 (c # cs))
          else if take 5 (c # cs) = js ''false'' then Some (JBool False, drop 5 (c # cs))
          else if take 4 (c # cs) = js ''null'' then Some (JNull, drop 4 (c # cs))
          else (case json_number (c # cs) of None \<Rightarrow> None | Some (x, r) \<Rightarrow> Some (JNum x, r)))"
| "json_elements 0 acc s = None"
| "json_elements (Suc n) acc s =
     (case json_value n s of
        None \<Rightarrow> None
      | Some (v, r) \<Rightarrow>
          (case skip_ws r of
             [] \<Rightarrow> None
           | d # ds \<Rightarrow>
               if d = 44 then json_elements n (acc @ [v]) ds
               else if d = 93 then Some (JArr (acc @ [v]), ds)
               else None))"
| "json_members 0 acc s = None"
| "json_members (Suc n) acc s =
     (case skip_ws s of
        [] \<Rightarrow> None
      | q # qs \<Rightarrow>
          if q \<noteq> 34 then None
          else (case json_string [] qs of
                  None \<Rightarrow> None
                | Some (k, r) \<Rightarrow>
                    (case skip_ws r of
                       [] \<Rightarrow> None
                     | c # cs \<Rightarrow>
                         if c \<noteq> 58 then None
                         else (case json_value n cs of
                                 None \<Rightarrow> None
                               | Some (v, r') \<Rightarrow>
                                   (case skip_ws r' of
                                      [] \<Rightarrow> None
                                    | d # ds \<Rightarrow>
                                        if d = 44 then json_members n (obj_put k v acc) ds
                                        else if d = 125 then Some (JObj (obj_put k v acc), ds)
                                        else None)))))"

text \<open>\<open>JSON.parse\<close>: \<open>None\<close> when it throws a SyntaxError.\<close>

definition JSON_parse :: "jsstring \<Rightarrow> json option" where
  "JSON_parse s =
     (case json_value (2 * length s + 2) s of
        None \<Rightarrow> None
      | Some (v, r) \<Rightarrow> if skip_ws r = [] then Some v else None)"

text \<open>
  The conversion of a parsed value to a string. An array joins its elements with commas,
  \<open>null\<close> giving the empty string there. An object has the inherited \<open>toString\<close>
  unless it has a property of that name, which is not callable: then the conversion
  throws a TypeError (\<open>None\<close>).
\<close>

fun js_toString :: "json \<Rightarrow> jsstring option"
  and js_join :: "json list \<Rightarrow> jsstring option"
where
  "js_toString JNull = Some (js ''null'')"
| "js_toString (JBool b) = Some (if b then js ''true'' else js ''false'')"
| "js_toString (JNum x) = Some (Number_toString x)"
| "js_toString (JStr str) = Some str"
| "js_toString (JArr xs) = js_join xs"
| "js_toString (JObj kvs) =
     (if js ''toString'' \<in> set (map fst kvs) then None else Some (js ''[object Object]''))"
| "js_join [] = Some []"
| "js_join (x # xs) =
     (case (if x = JNull then Some [] else js_toString x) of
        None \<Rightarrow> None
      | Some a \<Rightarrow>
          if xs = [] then Some a
          else (case js_join xs of None \<Rightarrow> None | Some b \<Rightarrow> Some (a @ [44] @ b)))"

text \<open>
  \<open>ToNumber\<close> on the value of a property of a parsed object; \<open>None\<close> as argument is
  \<open>undefined\<close>, the value of a property that is absent, and \<open>None\<close> as result is a
  TypeError thrown.
\<close>

definition ToNumber :: "json option \<Rightarrow> number option" where
  "ToNumber v =
     (case v of
        None \<Rightarrow> Some NaN
      | Some JNull \<Rightarrow> Some (Fin 0)
      | Some (JBool b) \<Rightarrow> Some (if b then Fin 1 else Fin 0)
      | Some (JNum x) \<Rightarrow> Some x
      | Some (JStr str) \<Rightarrow> Some (StringToNumber str)
      | Some w \<Rightarrow> (case js_toString w of None \<Rightarrow> None | Some str \<Rightarrow> Some (StringToNumber str)))"

text \<open>The property of an object, or \<open>undefined\<close>.\<close>

definition get_prop :: "json \<Rightarrow> jsstring \<Rightarrow> json option" where
  "get_prop v k = (case v of JObj kvs \<Rightarrow> map_of kvs k | _ \<Rightarrow> None)"


text \<open>\<open>String.prototype.match\<close> without the flag \<open>g\<close>: the matched text and the groups.\<close>

definition match :: "regex \<Rightarrow> nat \<Rightarrow> jsstring \<Rightarrow> (jsstring \<times> jsstring option list) option" where
  "match r n s = (case regex_exec r n s of None \<Rightarrow> None | Some (w, _, gs) \<Rightarrow> Some (w, gs))"

section \<open>The classifier of prompts\<close>

text \<open>
  What the program throws or rejects with: an \<open>Error\<close> object with its message, or any
  other value.
\<close>

datatype thrown = Error jsstring | Thrown_other

datatype prompt_type = Objective | Subjective

record PromptAnalysis =
  type :: prompt_type
  expectedAnswer :: "jsstring option"
  evaluationFunction :: "(jsstring \<Rightarrow> number) option"

text \<open>
  The patterns of \<open>analyzePrompt\<close>, all with the flag \<open>i\<close>. Their character classes
  are closed under the change of case, so the flag changes the literal characters only.
\<close>

definition quote_class :: regex where
  "quote_class = Class (\<lambda>c. c = 39 \<or> c = 34)"

definition letterCountRegex :: regex where
  "letterCountRegex =
     Seqs [Str_i ''how many '', Opt (Str_i ''of the ''),
           Alt (Str_i ''letter'') (Str_i ''character''), Opt (Chr_i 115), Chr_i 32,
           Opt quote_class, Group 1 (Class is_letter), Opt quote_class, Chr_i 32,
           Alt (Str_i ''is'') (Str_i ''are''), Chr_i 32, Opt (Str_i ''there ''),
           Str_i ''in '', Opt (Str_i ''the word ''),
           Opt quote_class, Group 2 (Plus (Class is_word)), Opt quote_class]"

definition wordCountRegex :: regex where
  "wordCountRegex =
     Seqs [Str_i ''how many words '', Alt (Str_i ''is'') (Str_i ''are''), Chr_i 32,
           Opt (Str_i ''there ''), Str_i ''in '',
           Opt quote_class, Group 1 (Plus (Class (\<lambda>c. \<not> (c = 39 \<or> c = 34)))),
           Opt quote_class]"

definition mathRegex :: regex where
  "mathRegex =
     Seqs [Str_i ''what is '', Group 1 (Plus (Class is_digit)), Star (Class is_space),
           Group 2 (Class (\<lambda>c. c = 43 \<or> c = 45 \<or> c = 42 \<or> c = 47)),
           Star (Class is_space), Group 3 (Plus (Class is_digit))]"

text \<open>The patterns applied to a response: \<open>/\d+/\<close> and \<open>/-?\d+\.?\d*/\<close>.\<close>

definition digitsRegex :: regex where
  "digitsRegex = Plus (Class is_digit)"

definition numberRegex :: regex where
  "numberRegex =
     Seqs [Opt (Chr 45), Plus (Class is_digit), Opt (Chr 46), Star (Class is_digit)]"

text \<open>
  \<open>new RegExp(p, 'g')\<close> for a pattern of characters that stand for themselves; the
  program builds it from the lower case of group 1, one ASCII letter.
\<close>

definition RegExp :: "jsstring \<Rightarrow> regex" where
  "RegExp p = foldr (\<lambda>c r. Seq (Chr c) r) p Eps"

text \<open>The length of an array as a number: it is below \<open>2^32\<close>, hence exact.\<close>

definition array_length :: "'a list \<Rightarrow> number" where
  "array_length xs = Fin (of_nat (length xs))"

text \<open>The scoring closure of the two counting templates.\<close>

definition count_eval :: "number \<Rightarrow> jsstring \<Rightarrow> number" where
  "count_eval correctCount response =
     (case match digitsRegex 0 response of
        None \<Rightarrow> Fin 0
      | Some (numbers0, _) \<Rightarrow>
          if num_eq (parseInt numbers0) correctCount then Fin 1 else Fin 0)"

text \<open>The scoring closure of the arithmetic template.\<close>

definition math_eval :: "number \<Rightarrow> jsstring \<Rightarrow> number" where
  "math_eval correctAnswer response =
     (case match numberRegex 0 response of
        None \<Rightarrow> Fin 0
      | Some (numbers0, _) \<Rightarrow>
          if num_less (num_abs (num_sub (parseFloat numbers0) correctAnswer)) (lit (1 / 100))
          then Fin 1 else Fin 0)"

definition type_error :: thrown where
  "type_error = Error (js ''Cannot read properties of undefined'')"

text \<open>
  \<open>analyzePrompt\<close>. The three templates are tried in the order of the source, and the
  first that matches decides. Reading a group that took no part in the match would throw
  the TypeError of a method call on \<open>undefined\<close>.
\<close>

definition analyzePrompt :: "jsstring \<Rightarrow> thrown + PromptAnalysis" where
  "analyzePrompt prompt =
     (case match letterCountRegex 2 prompt of
        Some (_, gs) \<Rightarrow>
          (case gs of
             [_, Some letter, Some word] \<Rightarrow>
               (let correctCount =
                      array_length (match_all (RegExp (toLowerCase letter)) (toLowerCase word))
                in Inr \<lparr>type = Objective,
                        expectedAnswer = Some (Number_toString correctCount),
                        evaluationFunction = Some (count_eval correctCount)\<rparr>)
           | _ \<Rightarrow> Inl type_error)
      | None \<Rightarrow>
     (case match wordCountRegex 1 prompt of
        Some (_, gs) \<Rightarrow>
          (case gs of
             [_, Some phrase] \<Rightarrow>
               (let correctCount = array_length (split (Plus (Class is_space)) (trim phrase))
                in Inr \<lparr>type = Objective,
                        expectedAnswer = Some (Number_toString correctCount),
                        evaluationFunction = Some (count_eval correctCount)\<rparr>)
           | _ \<Rightarrow> Inl type_error)
      | None \<Rightarrow>
     (case match mathRegex 3 prompt of
        Some (_, gs) \<Rightarrow>
          (case gs of
             [_, Some num1, Some operator, Some num2] \<Rightarrow>
               (let correctAnswer =
                      (if operator = js ''+'' then num_add (parseInt num1) (parseInt num2)
                       else if operator = js ''-'' then num_sub (parseInt num1) (parseInt num2)
                       else if operator = js ''*'' then num_mul (parseInt num1) (parseInt num2)
                       else if operator = js ''/'' then num_div (parseInt num1) (parseInt num2)
                       else Fin 0)
                in Inr \<lparr>type = Objective,
                        expectedAnswer = Some (Number_toString correctAnswer),
                        evaluationFunction = Some (math_eval correctAnswer)\<rparr>)
           | _ \<Rightarrow> Inl type_error)
      | None \<Rightarrow>
          Inr \<lparr>type = Subjective, expectedAnswer = None, evaluationFunction = None\<rparr>)))"


section \<open>The hosted chat-completion service\<close>

text \<open>
  A request of \<open>groq.chat.completions.create\<close>, and what the program reads of its
  answer: the content of the first choice (\<open>None\<close> when a link of
  \<open>choices[0]?.message?.content\<close> is missing) and \<open>usage?.total_tokens\<close>. The call
  either throws or returns a completion. The service is a parameter of the model: each
  run of \<open>getGroqResponse\<close> gets a function from requests to outcomes, and the two
  readings of the clock.
\<close>

record request =
  req_model :: jsstring
  messages :: "(jsstring \<times> jsstring) list"
  temperature :: number
  max_tokens :: "number option"

record completion =
  content :: "jsstring option"
  total_tokens :: "number option"

type_synonym outcome = "thrown + completion"

record call_env =
  create :: "request \<Rightarrow> outcome"
  now_start :: number
  now_end :: number

section \<open>The rubric evaluator\<close>

datatype details =
    Details_objective "jsstring option" jsstring
  | Details_subjective "(jsstring \<times> json) list"

record rubric =
  accuracy :: number
  relevancy :: number
  details :: "details option"

definition evaluationPrompt :: "jsstring \<Rightarrow> jsstring \<Rightarrow> jsstring" where
  "evaluationPrompt prompt response =
     [10] @ js ''Evaluate this AI response based on specific criteria. Consider:'' @ [10, 10]
     @ js ''Original Prompt: '' @ [34] @ prompt @ [34, 10]
     @ js ''AI Response: '' @ [34] @ response @ [34, 10, 10]
     @ js ''Score these aspects:'' @ [10]
     @ js ''1. Accuracy (0-100): How factually correct and precise is the information?'' @ [10]
     @ js ''2. Relevancy (0-100): How well does it address the specific question asked?''
     @ [10, 10]
     @ js ''Return ONLY a JSON object like this:'' @ [10]
     @ js ''{'' @ [10]
     @ js ''  '' @ [34] @ js ''accuracy'' @ [34] @ js '': 85,'' @ [10]
     @ js ''  '' @ [34] @ js ''relevancy'' @ [34] @ js '': 90,'' @ [10]
     @ js ''  '' @ [34] @ js ''reasoning'' @ [34] @ js '': '' @ [34]
     @ js ''Brief explanation of scoring'' @ [34, 10]
     @ js ''}''"

definition judge_request :: "jsstring \<Rightarrow> jsstring \<Rightarrow> request" where
  "judge_request prompt response =
     \<lparr>req_model = js ''mixtral-8x7b-32768'',
      messages =
        [(js ''system'',
          js ''You are an expert evaluator. Be extremely critical and precise in your scoring.''),
         (js ''user'', evaluationPrompt prompt response)],
      temperature = lit (1 / 10),
      max_tokens = None\<rparr>"

text \<open>The pattern \<open>/\{[\s\S]*\}/\<close> applied to the answer of the judge.\<close>

definition jsonRegex :: regex where
  "jsonRegex = Seqs [Chr 123, Star (Class (\<lambda>c. True)), Chr 125]"

definition neutral :: rubric where
  "neutral = \<lparr>accuracy = lit (1 / 2), relevancy = lit (1 / 2), details = None\<rparr>"

text \<open>
  The inner \<open>try\<close> block: \<open>None\<close> when no text matches, when \<open>JSON.parse\<close> throws or
  when a division throws on a value that has no number; the \<open>catch\<close> only logs, and
  the function goes on to its last statement.
\<close>

definition parse_scores :: "jsstring \<Rightarrow> rubric option" where
  "parse_scores content' =
     (case match jsonRegex 0 content' of
        None \<Rightarrow> None
      | Some (jsonMatch0, _) \<Rightarrow>
          (case JSON_parse jsonMatch0 of
             None \<Rightarrow> None
           | Some scores \<Rightarrow>
               (case ToNumber (get_prop scores (js ''accuracy'')) of
                  None \<Rightarrow> None
                | Some a \<Rightarrow>
                    (case ToNumber (get_prop scores (js ''relevancy'')) of
                       None \<Rightarrow> None
                     | Some r \<Rightarrow>
                         Some \<lparr>accuracy = num_div a (Fin 100),
                               relevancy = num_div r (Fin 100),
                               details =
                                 Some (Details_subjective
                                   (obj_put (js ''evaluationType'') (JStr (js ''subjective''))
                                      (case scores of JObj kvs \<Rightarrow> kvs | _ \<Rightarrow> [])))\<rparr>))))"

text \<open>
  The subjective path: one call of the judge. \<open>judge_content\<close> is
  \<open>evaluation.choices[0]?.message?.content?.trim() || ''\<close>. The outer \<open>try\<close>
  block catches a call that throws; every failure ends in the neutral result.
\<close>

definition judge_content :: "completion \<Rightarrow> jsstring" where
  "judge_content evaluation = (case content evaluation of None \<Rightarrow> [] | Some t \<Rightarrow> trim t)"

definition judge :: "(request \<Rightarrow> outcome) \<Rightarrow> jsstring \<Rightarrow> jsstring \<Rightarrow> rubric" where
  "judge create_fn response prompt =
     (case create_fn (judge_request prompt response) of
        Inl e \<Rightarrow> neutral
      | Inr evaluation \<Rightarrow>
          (case parse_scores (judge_content evaluation) of None \<Rightarrow> neutral | Some r \<Rightarrow> r))"

definition evaluateWithRubric :: "(request \<Rightarrow> outcome) \<Rightarrow> jsstring \<Rightarrow> jsstring \<Rightarrow> thrown + rubric" where
  "evaluateWithRubric create_fn response prompt =
     (case analyzePrompt prompt of
        Inl e \<Rightarrow> Inl e
      | Inr promptAnalysis \<Rightarrow>
          (case evaluationFunction promptAnalysis of
             Some f \<Rightarrow>
               if type promptAnalysis = Objective
               then Inr \<lparr>accuracy = f response,
                         relevancy = (if match digitsRegex 0 response \<noteq> None then Fin 1 else Fin 0),
                         details = Some (Details_objective (expectedAnswer promptAnalysis) response)\<rparr>
               else Inr (judge create_fn response prompt)
           | None \<Rightarrow> Inr (judge create_fn response prompt)))"

section \<open>The model dispatcher\<close>

record EvaluationMetrics =
  accuracy :: number
  relevancy :: number
  responseTime :: number
  cost :: number
  tokenCount :: number

record LLMResponse =
  model :: jsstring
  response :: jsstring
  metrics :: EvaluationMetrics
  error :: "jsstring option"

definition costPer1kTokens :: "jsstring \<Rightarrow> number" where
  "costPer1kTokens m =
     (if m = js ''mixtral-8x7b-32768'' then lit (27 / 1000)
      else if m = js ''llama-3.3-70b-versatile'' then lit (7 / 10000)
      else if m = js ''gemma2-9b-it'' then lit (1 / 10000)
      else if m = js ''llama-3.1-8b-instant'' then lit (1 / 10000)
      else lit (1 / 10000))"

definition chat_request :: "jsstring \<Rightarrow> jsstring \<Rightarrow> request" where
  "chat_request prompt m =
     \<lparr>req_model = m,
      messages = [(js ''user'', prompt)],
      temperature = lit (7 / 10),
      max_tokens = Some (Fin 4096)\<rparr>"

text \<open>The \<open>try\<close> block of \<open>getGroqResponse\<close>: \<open>Inl\<close> is what it throws.\<close>

definition getGroqResponse_try :: "call_env \<Rightarrow> jsstring \<Rightarrow> jsstring \<Rightarrow> thrown + LLMResponse" where
  "getGroqResponse_try env prompt m =
     (case create env (chat_request prompt m) of
        Inl e \<Rightarrow> Inl e
      | Inr completion \<Rightarrow>
          (let responseTime' = num_div (num_sub (now_end env) (now_start env)) (Fin 1000);
               response' = (case content completion of None \<Rightarrow> [] | Some t \<Rightarrow> t);
               tokenCount' = (case total_tokens completion of
                                None \<Rightarrow> Fin 0
                              | Some n \<Rightarrow> if num_truthy n then n else Fin 0);
               cost' = num_mul (num_div tokenCount' (Fin 1000)) (costPer1kTokens m)
           in case evaluateWithRubric (create env) response' prompt of
                Inl e \<Rightarrow> Inl e
              | Inr evaluation \<Rightarrow>
                  Inr \<lparr>model = m,
                       response = response',
                       metrics = \<lparr>accuracy = rubric.accuracy evaluation,
                                  relevancy = rubric.relevancy evaluation,
                                  responseTime = responseTime',
                                  cost = cost',
                                  tokenCount = tokenCount'\<rparr>,
                       error = None\<rparr>))"

text \<open>
  \<open>getGroqResponse\<close>: the promise it returns is fulfilled (\<open>Inr\<close>) or rejected
  (\<open>Inl\<close>). The \<open>catch\<close> turns what the \<open>try\<close> block throws into a result.
\<close>

definition getGroqResponse :: "call_env \<Rightarrow> jsstring \<Rightarrow> jsstring \<Rightarrow> thrown + LLMResponse" where
  "getGroqResponse env prompt m =
     (case getGroqResponse_try env prompt m of
        Inr r \<Rightarrow> Inr r
      | Inl e \<Rightarrow>
          Inr \<lparr>model = m,
               response = [],
               metrics = \<lparr>accuracy = Fin 0,
                          relevancy = Fin 0,
                          responseTime = num_div (num_sub (now_end env) (now_start env)) (Fin 1000),
                          cost = Fin 0,
                          tokenCount = Fin 0\<rparr>,
               error = Some (case e of Error msg \<Rightarrow> msg | Thrown_other \<Rightarrow> js ''Unknown error'')\<rparr>)"

definition models :: "jsstring list" where
  "models = [js ''mixtral-8x7b-32768'', js ''gemma2-9b-it'', js ''llama-3.3-70b-versatile'',
             js ''llama-3.1-8b-instant'']"

text \<open>
  \<open>Promise.all\<close>: fulfilled with the list of the values, in the order of the promises,
  or rejected when one of them is.
\<close>

fun promise_all :: "(thrown + 'a) list \<Rightarrow> thrown + 'a list" where
  "promise_all [] = Inr []"
| "promise_all (p # ps) =
     (case p of
        Inl e \<Rightarrow> Inl e
      | Inr v \<Rightarrow> (case promise_all ps of Inl e \<Rightarrow> Inl e | Inr vs \<Rightarrow> Inr (v # vs)))"

text \<open>
  \<open>evaluatePrompt\<close>. The four runs are independent: \<open>env\<close> gives the service and the
  clock of the run for each model. The \<open>catch\<close> throws again what it caught.
\<close>

definition evaluatePrompt :: "(jsstring \<Rightarrow> call_env) \<Rightarrow> jsstring \<Rightarrow> thrown + LLMResponse list" where
  "evaluatePrompt env prompt =
     (case promise_all (map (\<lambda>m. getGroqResponse (env m) prompt m) models) of
        Inr responses \<Rightarrow> Inr responses
      | Inl e \<Rightarrow> Inl e)"


section \<open>Notions used in the statements and the proofs\<close>

text \<open>
  Three facts about the groups of a match are followed through the matcher: the list of
  groups keeps its length, a group that is set stays set, and a group that gets set by
  the pattern holds a text with the property \<open>Q\<close>, when every group \<open>i\<close> of the
  pattern encloses a pattern that only consumes such texts (\<open>group_ok\<close>).
  \<open>sets_group i r\<close> says that every match of \<open>r\<close> goes through group \<open>i\<close>.
\<close>

definition cap_rel :: "nat \<Rightarrow> (jsstring \<Rightarrow> bool) \<Rightarrow> mstate \<Rightarrow> mstate \<Rightarrow> bool" where
  "cap_rel i Q st st' =
     (length (snd st') = length (snd st)
      \<and> (\<forall>w. snd st' ! i = Some w \<longrightarrow> snd st ! i = Some w \<or> Q w)
      \<and> (snd st ! i \<noteq> None \<longrightarrow> snd st' ! i \<noteq> None))"

primrec group_ok :: "nat \<Rightarrow> (jsstring \<Rightarrow> bool) \<Rightarrow> regex \<Rightarrow> bool" where
  "group_ok i Q Eps = True"
| "group_ok i Q (Class P) = True"
| "group_ok i Q (Seq a b) = (group_ok i Q a \<and> group_ok i Q b)"
| "group_ok i Q (Alt a b) = (group_ok i Q a \<and> group_ok i Q b)"
| "group_ok i Q (Opt a) = group_ok i Q a"
| "group_ok i Q (Star a) = group_ok i Q a"
| "group_ok i Q (Group j a) =
     (group_ok i Q a \<and>
      (j = i \<longrightarrow> (\<forall>st st'. st' \<in> set (matcher a st)
                 \<longrightarrow> Q (take (length (fst st) - length (fst st')) (fst st)))))"

primrec sets_group :: "nat \<Rightarrow> regex \<Rightarrow> bool" where
  "sets_group i Eps = False"
| "sets_group i (Class P) = False"
| "sets_group i (Seq a b) = (sets_group i a \<or> sets_group i b)"
| "sets_group i (Alt a b) = (sets_group i a \<and> sets_group i b)"
| "sets_group i (Opt a) = False"
| "sets_group i (Star a) = False"
| "sets_group i (Group j a) = (j = i \<or> sets_group i a)"


text \<open>
  Services for the examples: one whose calls all throw, one whose calls all return a
  completion without content.
\<close>

definition failing_env :: call_env where
  "failing_env = \<lparr>create = (\<lambda>r. Inl (Error (js ''rate limit''))), now_start = Fin 1000, now_end = Fin 2500\<rparr>"

definition silent_env :: call_env where
  "silent_env = \<lparr>create = (\<lambda>r. Inr \<lparr>content = None, total_tokens = None\<rparr>), now_start = Fin 1000, now_end = Fin 2500\<rparr>"

text \<open>
  What a result shows of the call of its model: a call that threw leaves an empty
  response and an error string, a call that returned leaves its content (the empty string
  when there is none) and no error.
\<close>

definition call_result :: "outcome \<Rightarrow> LLMResponse \<Rightarrow> bool" where
  "call_result out r =
     (case out of
        Inl e \<Rightarrow> response r = [] \<and> error r = Some (case e of Error msg \<Rightarrow> msg | Thrown_other \<Rightarrow> js ''Unknown error'')
      | Inr c \<Rightarrow> response r = (case content c of None \<Rightarrow> [] | Some t \<Rightarrow> t) \<and> error r = None)"


definition answering_env :: call_env where
  "answering_env =
     \<lparr>create = (\<lambda>r. Inr \<lparr>content = Some (js ''4''), total_tokens = Some (Fin 2000)\<rparr>),
      now_start = Fin 1000, now_end = Fin 2500\<rparr>"


text \<open>
  The text from the first opening brace to the last closing brace after it, which is what
  the pattern \<open>/\{[\s\S]*\}/\<close> matches; \<open>after_last_brace\<close> is what follows it.
\<close>

definition brace_span :: "jsstring \<Rightarrow> jsstring option" where
  "brace_span s =
     (let t = dropWhile (\<lambda>c. c \<noteq> 123) s
      in if t \<noteq> [] \<and> 125 \<in> set (tl t)
         then Some (rev (dropWhile (\<lambda>c. c \<noteq> 125) (rev t)))
         else None)"

text \<open>The suffixes of a list, the shortest first.\<close>

primrec all_tails :: "'a list \<Rightarrow> 'a list list" where
  "all_tails [] = [[]]"
| "all_tails (x # r) = all_tails r @ [x # r]"

definition after_last_brace :: "jsstring \<Rightarrow> jsstring" where
  "after_last_brace t = rev (takeWhile (\<lambda>c. c \<noteq> 125) (rev t))"


text \<open>A number of the closed interval from 0 to 1.\<close>

definition in_unit_interval :: "number \<Rightarrow> bool" where
  "in_unit_interval x = (case x of Fin q \<Rightarrow> 0 \<le> q \<and> q \<le> 1 | _ \<Rightarrow> False)"

text \<open>
  The value that the judge path parses: \<open>None\<close> when the call of the judge throws,
  when its answer has no text in braces or when that text is no JSON.
\<close>

definition judge_scores :: "(request \<Rightarrow> outcome) \<Rightarrow> jsstring \<Rightarrow> jsstring \<Rightarrow> json option" where
  "judge_scores create_fn resp prompt =
     (case create_fn (judge_request prompt resp) of
        Inl e \<Rightarrow> None
      | Inr evaluation \<Rightarrow>
          (case brace_span (judge_content evaluation) of
             None \<Rightarrow> None
           | Some sp \<Rightarrow> JSON_parse sp))"

text \<open>
  A JSON text with the two scores, and a service whose calls all return the given text.
\<close>

definition json_scores_text :: "int \<Rightarrow> int \<Rightarrow> jsstring" where
  "json_scores_text a r =
     js ''{'' @ [34] @ js ''accuracy'' @ [34] @ js '': '' @ dec a @ js '', ''
     @ [34] @ js ''relevancy'' @ [34] @ js '': '' @ dec r @ js ''}''"

definition judged_env :: "jsstring \<Rightarrow> call_env" where
  "judged_env t =
     \<lparr>create = (\<lambda>r. Inr \<lparr>content = Some t, total_tokens = None\<rparr>),
      now_start = Fin 1000, now_end = Fin 2500\<rparr>"



text \<open>
  \<open>consumes P st st'\<close>: from \<open>st\<close> to \<open>st'\<close> the matcher has read a text of
  characters of the class \<open>P\<close> and left the groups as they were.
\<close>

definition consumes :: "(jschar \<Rightarrow> bool) \<Rightarrow> mstate \<Rightarrow> mstate \<Rightarrow> bool" where
  "consumes P st st' = (\<exists>w. fst st = w @ fst st' \<and> list_all P w \<and> snd st' = snd st)"


text \<open>
  The notions of the counting claims. \<open>first_integer\<close> is the value of the first run
  of digits of a text; \<open>count_ci\<close> counts the characters of a word that are a given
  letter up to case; \<open>word_count\<close> counts the words of a text, a word being a maximal
  run of characters that are no white space (\<open>word_starts\<close> counts the places where
  one begins); \<open>space_runs\<close> counts the maximal runs of white space.
\<close>

definition first_integer :: "jsstring \<Rightarrow> int option" where
  "first_integer s =
     (let t = dropWhile (\<lambda>c. \<not> is_digit c) s
      in if t = [] then None else Some (digits_val (takeWhile is_digit t)))"

definition count_ci :: "jsstring \<Rightarrow> jsstring \<Rightarrow> nat" where
  "count_ci letter word = length (filter (\<lambda>c. [lower_char c] = toLowerCase letter) word)"

primrec word_starts :: "bool \<Rightarrow> jsstring \<Rightarrow> nat" where
  "word_starts inside [] = 0"
| "word_starts inside (c # cs) =
     (if is_space c then word_starts False cs
      else (if inside then 0 else 1) + word_starts True cs)"

definition word_count :: "jsstring \<Rightarrow> nat" where
  "word_count s = word_starts False s"

primrec space_runs :: "bool \<Rightarrow> jsstring \<Rightarrow> nat" where
  "space_runs inside [] = 0"
| "space_runs inside (c # cs) =
     (if is_space c then (if inside then 0 else 1) + space_runs True cs
      else space_runs False cs)"

definition ends_in_word :: "jsstring \<Rightarrow> bool" where
  "ends_in_word u = (u = [] \<or> \<not> is_space (last u))"


section \<open>The groups of a match\<close>

lemma cap_rel_refl: "cap_rel i Q st st"
  by (simp add: cap_rel_def)

lemma cap_rel_trans: "cap_rel i Q a b \<Longrightarrow> cap_rel i Q b c \<Longrightarrow> cap_rel i Q a c"
  unfolding cap_rel_def by (metis option.distinct(1))

lemma star_iter_rel:
  assumes f: "\<And>st st'. st' \<in> set (f st) \<Longrightarrow> cap_rel i Q st st'"
  shows "st' \<in> set (star_iter f n st) \<Longrightarrow> cap_rel i Q st st'"
proof (induction n arbitrary: st)
  case 0
  then show ?case by (simp add: cap_rel_refl)
next
  case (Suc n)
  from Suc.prems consider "st' = st"
    | m where "m \<in> set (f st)" "st' \<in> set (star_iter f n m)"
    by auto
  then show ?case
  proof cases
    case 1
    then show ?thesis by (simp add: cap_rel_refl)
  next
    case 2
    then show ?thesis using f Suc.IH cap_rel_trans by blast
  qed
qed

lemma matcher_rel:
  "group_ok i Q r \<Longrightarrow> st' \<in> set (matcher r st) \<Longrightarrow> cap_rel i Q st st'"
proof (induction r arbitrary: st st')
  case Eps
  then show ?case by (simp add: cap_rel_refl)
next
  case (Class P)
  then show ?case by (auto simp: cap_rel_def split: list.splits if_splits)
next
  case (Seq a b)
  from Seq.prems obtain m where "m \<in> set (matcher a st)" "st' \<in> set (matcher b m)"
    by auto
  moreover from Seq.prems have "group_ok i Q a" "group_ok i Q b" by simp_all
  ultimately show ?case using Seq.IH cap_rel_trans by blast
next
  case (Alt a b)
  from Alt.prems have "st' \<in> set (matcher a st) \<or> st' \<in> set (matcher b st)" by simp
  moreover from Alt.prems have "group_ok i Q a" "group_ok i Q b" by simp_all
  ultimately show ?case using Alt.IH by blast
next
  case (Opt a)
  from Opt.prems have "st' = st \<or> st' \<in> set (matcher a st)" by auto
  moreover from Opt.prems have "group_ok i Q a" by simp
  ultimately show ?case using Opt.IH cap_rel_refl by blast
next
  case (Star a)
  then show ?case using star_iter_rel [of "matcher a" i Q] by simp
next
  case (Group j a)
  from Group.prems obtain m where m: "m \<in> set (matcher a st)"
    and st': "st' = (fst m, (snd m)[j := Some (take (length (fst st) - length (fst m)) (fst st))])"
    by auto
  from Group.prems have ok: "group_ok i Q a" by simp
  have rel: "cap_rel i Q st m" using Group.IH [OF ok m] .
  show ?case
  proof (cases "j = i")
    case True
    with Group.prems(1) have "\<forall>st st'. st' \<in> set (matcher a st)
        \<longrightarrow> Q (take (length (fst st) - length (fst st')) (fst st))"
      by (simp only: group_ok.simps) blast
    with m have "Q (take (length (fst st) - length (fst m)) (fst st))" by blast
    have q: "Q (take (length (fst st) - length (fst m)) (fst st))" by fact
    show ?thesis
    proof (cases "i < length (snd m)")
      case inside: True
      with rel q \<open>j = i\<close> show ?thesis unfolding cap_rel_def st' by simp
    next
      case False
      then have "(snd m)[i := Some (take (length (fst st) - length (fst m)) (fst st))] = snd m"
        by (intro list_update_beyond) simp
      with rel \<open>j = i\<close> show ?thesis unfolding cap_rel_def st' by simp
    qed
  next
    case False
    with rel show ?thesis unfolding cap_rel_def st' by auto
  qed
qed

lemma group_ok_True: "group_ok i (\<lambda>_. True) r"
  by (induction r) auto

lemma matcher_length: "st' \<in> set (matcher r st) \<Longrightarrow> length (snd st') = length (snd st)"
  using matcher_rel [OF group_ok_True] by (simp add: cap_rel_def)

lemma matcher_keeps: "st' \<in> set (matcher r st) \<Longrightarrow> snd st ! i \<noteq> None \<Longrightarrow> snd st' ! i \<noteq> None"
  using matcher_rel [OF group_ok_True, of st' r st i] by (simp add: cap_rel_def)

lemma matcher_defines:
  "sets_group i r \<Longrightarrow> i < length (snd st) \<Longrightarrow> st' \<in> set (matcher r st) \<Longrightarrow> snd st' ! i \<noteq> None"
proof (induction r arbitrary: st st')
  case (Seq a b)
  from Seq.prems obtain m where m: "m \<in> set (matcher a st)" "st' \<in> set (matcher b m)"
    by auto
  have len: "length (snd m) = length (snd st)" using m(1) by (rule matcher_length)
  show ?case
  proof (cases "sets_group i a")
    case True
    then have "snd m ! i \<noteq> None" using Seq.IH(1) Seq.prems(2) m(1) by blast
    then show ?thesis using matcher_keeps m(2) by blast
  next
    case False
    with Seq.prems have "sets_group i b" by simp
    then show ?thesis using Seq.IH(2) m(2) len Seq.prems(2) by metis
  qed
next
  case (Alt a b)
  from Alt.prems have "st' \<in> set (matcher a st) \<or> st' \<in> set (matcher b st)" by simp
  moreover from Alt.prems have "sets_group i a" "sets_group i b" by simp_all
  ultimately show ?case using Alt.IH Alt.prems(2) by blast
next
  case (Group j a)
  from Group.prems obtain m where m: "m \<in> set (matcher a st)"
    and st': "st' = (fst m, (snd m)[j := Some (take (length (fst st) - length (fst m)) (fst st))])"
    by auto
  have len: "length (snd m) = length (snd st)" using m by (rule matcher_length)
  show ?case
  proof (cases "j = i")
    case True
    then show ?thesis using len Group.prems(2) st' by simp
  next
    case False
    with Group.prems have "sets_group i a" by simp
    then have "snd m ! i \<noteq> None" using Group.IH Group.prems(2) m by blast
    with False show ?thesis using st' by simp
  qed
qed simp_all

lemma regex_exec_result:
  "regex_exec r n s = Some (w, rest, gs) \<Longrightarrow>
   \<exists>s0. (rest, gs) \<in> set (matcher r (s0, replicate (Suc n) None))
        \<and> w = take (length s0 - length rest) s0"
proof (induction s)
  case Nil
  then obtain sts where "matcher r ([], replicate (Suc n) None) = (rest, gs) # sts" "w = []"
    by (subst (asm) regex_exec.simps) (auto split: list.splits)
  then have "(rest, gs) \<in> set (matcher r ([], replicate (Suc n) None))
      \<and> w = take (length ([]::jsstring) - length rest) []"
    by simp
  then show ?case by blast
next
  case (Cons c cs)
  show ?case
  proof (cases "matcher r (c # cs, replicate (Suc n) None)")
    case Nil
    with Cons.prems have "regex_exec r n cs = Some (w, rest, gs)"
      by (subst (asm) regex_exec.simps) simp
    then show ?thesis by (rule Cons.IH)
  next
    case (Cons st sts)
    with Cons.prems have "w = take (length (c # cs) - length (fst st)) (c # cs)" "rest = fst st" "gs = snd st"
      by (subst (asm) regex_exec.simps, simp)+
    moreover have "st \<in> set (matcher r (c # cs, replicate (Suc n) None))" using Cons by simp
    ultimately show ?thesis by (metis prod.collapse)
  qed
qed

lemma regex_exec_groups:
  assumes "regex_exec r n s = Some (w, rest, gs)"
  shows "length gs = Suc n" and "sets_group i r \<Longrightarrow> i \<le> n \<Longrightarrow> gs ! i \<noteq> None"
    and "group_ok i Q r \<Longrightarrow> gs ! i = Some x \<Longrightarrow> i \<le> n \<Longrightarrow> Q x"
proof -
  from regex_exec_result [OF assms] obtain s0 where
    m: "(rest, gs) \<in> set (matcher r (s0, replicate (Suc n) None))" by blast
  from matcher_length [OF m] show "length gs = Suc n" by simp
  show "sets_group i r \<Longrightarrow> i \<le> n \<Longrightarrow> gs ! i \<noteq> None"
    using matcher_defines [OF _ _ m, of i] by simp
  show "group_ok i Q r \<Longrightarrow> gs ! i = Some x \<Longrightarrow> i \<le> n \<Longrightarrow> Q x"
  proof -
    assume ok: "group_ok i Q r" and x: "gs ! i = Some x" and i: "i \<le> n"
    have "replicate (Suc n) (None :: jsstring option) ! i = None"
      using i by (simp only: nth_replicate less_Suc_eq_le)
    with matcher_rel [OF ok m] x show "Q x" by (simp add: cap_rel_def del: replicate_Suc)
  qed
qed

lemma match_SomeD:
  "match r n s = Some (w, gs) \<Longrightarrow> \<exists>rest. regex_exec r n s = Some (w, rest, gs)"
  by (auto simp: match_def split: option.splits)

lemma sets_group_letter: "sets_group 1 letterCountRegex" "sets_group 2 letterCountRegex"
  by (simp_all add: letterCountRegex_def Seqs_def)

lemma sets_group_word: "sets_group 1 wordCountRegex"
  by (simp add: wordCountRegex_def Seqs_def)

lemma sets_group_math: "sets_group 1 mathRegex" "sets_group 2 mathRegex" "sets_group 3 mathRegex"
  by (simp_all add: mathRegex_def Seqs_def)

lemma letter_groups:
  assumes "match letterCountRegex 2 s = Some (w, gs)"
  shows "\<exists>a letter word. gs = [a, Some letter, Some word]"
proof -
  from match_SomeD [OF assms] obtain rest where
    ex: "regex_exec letterCountRegex 2 s = Some (w, rest, gs)" ..
  have len: "length gs = 3" using regex_exec_groups(1) [OF ex] by simp
  have "gs ! 1 \<noteq> None" "gs ! 2 \<noteq> None"
    using regex_exec_groups(2) [OF ex] sets_group_letter by simp_all
  with len show ?thesis
    by (auto simp: length_Suc_conv numeral_3_eq_3)
qed

lemma word_groups:
  assumes "match wordCountRegex 1 s = Some (w, gs)"
  shows "\<exists>a phrase. gs = [a, Some phrase]"
proof -
  from match_SomeD [OF assms] obtain rest where
    ex: "regex_exec wordCountRegex 1 s = Some (w, rest, gs)" ..
  have len: "length gs = 2" using regex_exec_groups(1) [OF ex] by simp
  have "gs ! 1 \<noteq> None"
    using regex_exec_groups(2) [OF ex] sets_group_word by simp_all
  with len show ?thesis
    by (auto simp: length_Suc_conv numeral_2_eq_2)
qed

lemma math_groups:
  assumes "match mathRegex 3 s = Some (w, gs)"
  shows "\<exists>a num1 operator num2. gs = [a, Some num1, Some operator, Some num2]"
proof -
  from match_SomeD [OF assms] obtain rest where
    ex: "regex_exec mathRegex 3 s = Some (w, rest, gs)" ..
  have len: "length gs = 4" using regex_exec_groups(1) [OF ex] by simp
  have "gs ! 1 \<noteq> None" "gs ! 2 \<noteq> None" "gs ! 3 \<noteq> None"
    using regex_exec_groups(2) [OF ex] sets_group_math by simp_all
  with len show ?thesis
    by (auto simp: length_Suc_conv eval_nat_numeral)
qed

lemma analyzePrompt_total: "\<exists>pa. analyzePrompt prompt = Inr pa"
proof (cases "match letterCountRegex 2 prompt")
  case (Some a)
  obtain w gs where "a = (w, gs)" by (cases a)
  with Some letter_groups show ?thesis
    by (fastforce simp: analyzePrompt_def Let_def)
next
  case l: None
  show ?thesis
  proof (cases "match wordCountRegex 1 prompt")
    case (Some a)
    obtain w gs where "a = (w, gs)" by (cases a)
    with Some l word_groups show ?thesis
      by (fastforce simp: analyzePrompt_def Let_def)
  next
    case wd: None
    show ?thesis
    proof (cases "match mathRegex 3 prompt")
      case (Some a)
      obtain w gs where "a = (w, gs)" by (cases a)
      with Some l wd math_groups show ?thesis
        by (fastforce simp: analyzePrompt_def Let_def)
    next
      case None
      with l wd show ?thesis by (simp add: analyzePrompt_def)
    qed
  qed
qed

lemma evaluateWithRubric_total: "\<exists>r. evaluateWithRubric create_fn resp prompt = Inr r"
proof -
  obtain pa where "analyzePrompt prompt = Inr pa" using analyzePrompt_total by blast
  then show ?thesis by (simp add: evaluateWithRubric_def split: option.splits)
qed

section \<open>The dispatcher\<close>

lemma lit_half: "lit (1 / 2) = Fin (1 / 2)"
  by code_simp

lemma getGroqResponse_cases:
  "\<exists>r. getGroqResponse env prompt m = Inr r \<and> model r = m
       \<and> call_result (create env (chat_request prompt m)) r"
proof (cases "create env (chat_request prompt m)")
  case (Inl e)
  then show ?thesis
    by (simp add: getGroqResponse_def getGroqResponse_try_def call_result_def)
next
  case (Inr c)
  obtain ev where "evaluateWithRubric (create env) (case content c of None \<Rightarrow> [] | Some t \<Rightarrow> t) prompt = Inr ev"
    using evaluateWithRubric_total by blast
  with Inr show ?thesis
    by (simp add: getGroqResponse_def getGroqResponse_try_def call_result_def Let_def)
qed

lemma promise_all_map:
  assumes "\<And>x. \<exists>r. f x = Inr r \<and> P x r"
  shows "\<exists>rs. promise_all (map f xs) = Inr rs \<and> list_all2 P xs rs"
proof (induction xs)
  case Nil
  then show ?case by simp
next
  case (Cons x xs)
  then obtain rs where "promise_all (map f xs) = Inr rs" "list_all2 P xs rs" by blast
  moreover obtain r where "f x = Inr r" "P x r" using assms by blast
  ultimately show ?case by simp
qed

text \<open>
  C8. When the chat-completion call of a model throws, \<open>getGroqResponse\<close> returns a
  result with the empty response, with the error set (the message of the Error thrown, or
  \<open>Unknown error\<close>), and with accuracy, relevancy, cost and tokenCount all 0; only
  responseTime depends on the clock.
\<close>

theorem getGroqResponse_call_throws:
  assumes "create env (chat_request prompt m) = Inl e"
  shows "getGroqResponse env prompt m =
    Inr \<lparr>model = m, response = [],
         metrics = \<lparr>accuracy = Fin 0, relevancy = Fin 0,
                    responseTime = num_div (num_sub (now_end env) (now_start env)) (Fin 1000),
                    cost = Fin 0, tokenCount = Fin 0\<rparr>,
         error = Some (case e of Error msg \<Rightarrow> msg | Thrown_other \<Rightarrow> js ''Unknown error'')\<rparr>"
  using assms by (simp add: getGroqResponse_def getGroqResponse_try_def)

theorem getGroqResponse_call_throws_witness:
  "create failing_env (chat_request (js ''hi'') (js ''gemma2-9b-it'')) = Inl (Error (js ''rate limit''))
   \<and> getGroqResponse failing_env (js ''hi'') (js ''gemma2-9b-it'') =
    Inr \<lparr>model = js ''gemma2-9b-it'', response = [],
         metrics = \<lparr>accuracy = Fin 0, relevancy = Fin 0,
                    responseTime = num_div (num_sub (Fin 2500) (Fin 1000)) (Fin 1000),
                    cost = Fin 0, tokenCount = Fin 0\<rparr>,
         error = Some (js ''rate limit'')\<rparr>"
proof -
  have h: "create failing_env (chat_request (js ''hi'') (js ''gemma2-9b-it'')) = Inl (Error (js ''rate limit''))"
    by (simp add: failing_env_def)
  show ?thesis
    using h getGroqResponse_call_throws [OF h] by (simp add: failing_env_def)
qed

text \<open>
  C9. The list that \<open>evaluatePrompt\<close> returns keeps the order of the configured
  models: the model fields of the results are, in this order, the four identifiers of the
  fixed list, whatever the calls do (return or throw).
\<close>

theorem evaluatePrompt_keeps_order:
  "\<exists>rs. evaluatePrompt env prompt = Inr rs
      \<and> map model rs = [js ''mixtral-8x7b-32768'', js ''gemma2-9b-it'',
                         js ''llama-3.3-70b-versatile'', js ''llama-3.1-8b-instant'']"
proof -
  have "\<And>m. \<exists>r. getGroqResponse (env m) prompt m = Inr r \<and> model r = m"
    using getGroqResponse_cases by blast
  from promise_all_map [of "\<lambda>m. getGroqResponse (env m) prompt m" "\<lambda>m r. model r = m", OF this]
  obtain rs where rs: "promise_all (map (\<lambda>m. getGroqResponse (env m) prompt m) models) = Inr rs"
    "list_all2 (\<lambda>m r. model r = m) models rs" by blast
  from rs(2) have "map model rs = models"
    by (induction rule: list_all2_induct) simp_all
  with rs(1) show ?thesis by (simp add: evaluatePrompt_def models_def)
qed

text \<open>
  C7. For every model call that returns, the cost reported is the token count divided by
  1000 and multiplied by the flat rate of the model: 0.027 for mixtral-8x7b-32768, 0.0007
  for llama-3.3-70b-versatile and 0.0001 for every other model. The token count is the
  total the service reports, or 0 when it reports none.
\<close>

theorem cost_of_successful_call:
  assumes "create env (chat_request prompt m) = Inr c"
  shows "\<exists>r. getGroqResponse env prompt m = Inr r \<and> error r = None
     \<and> tokenCount (metrics r) =
         (case total_tokens c of None \<Rightarrow> Fin 0 | Some n \<Rightarrow> if num_truthy n then n else Fin 0)
     \<and> cost (metrics r) =
         num_mul (num_div (tokenCount (metrics r)) (Fin 1000))
           (if m = js ''mixtral-8x7b-32768'' then lit (27 / 1000)
            else if m = js ''llama-3.3-70b-versatile'' then lit (7 / 10000)
            else lit (1 / 10000))"
proof -
  obtain ev where "evaluateWithRubric (create env) (case content c of None \<Rightarrow> [] | Some t \<Rightarrow> t) prompt = Inr ev"
    using evaluateWithRubric_total by blast
  with assms show ?thesis
    by (simp add: getGroqResponse_def getGroqResponse_try_def Let_def costPer1kTokens_def)
qed

theorem cost_of_successful_call_witness:
  "create answering_env (chat_request (js ''what is 2 + 2'') (js ''mixtral-8x7b-32768'')) =
     Inr \<lparr>content = Some (js ''4''), total_tokens = Some (Fin 2000)\<rparr>
   \<and> (\<exists>r. getGroqResponse answering_env (js ''what is 2 + 2'') (js ''mixtral-8x7b-32768'') = Inr r
         \<and> error r = None \<and> tokenCount (metrics r) = Fin 2000
         \<and> cost (metrics r) = num_mul (num_div (Fin 2000) (Fin 1000)) (lit (27 / 1000)))"
proof -
  have h: "create answering_env (chat_request (js ''what is 2 + 2'') (js ''mixtral-8x7b-32768'')) =
     Inr \<lparr>content = Some (js ''4''), total_tokens = Some (Fin 2000)\<rparr>"
    by (simp add: answering_env_def)
  show ?thesis
    using h cost_of_successful_call [OF h] by (auto simp: num_truthy_def)
qed


section \<open>Rounding\<close>

lemma round_half_even_int [simp]: "round_half_even (of_int k) = k"
  by (simp add: round_half_even_def)

lemma round_half_even_ge: "of_int k \<le> m \<Longrightarrow> k \<le> round_half_even m"
proof -
  assume "of_int k \<le> m"
  then have "k \<le> \<lfloor>m\<rfloor>" by (simp add: le_floor_iff)
  then show ?thesis by (auto simp: round_half_even_def Let_def)
qed

lemma round_half_even_le: "m \<le> of_int k \<Longrightarrow> round_half_even m \<le> k"
proof -
  assume m: "m \<le> of_int k"
  show ?thesis
  proof (cases "m = of_int k")
    case True
    then show ?thesis by simp
  next
    case False
    with m have "m < of_int k" by simp
    then have "\<lfloor>m\<rfloor> < k" by (simp add: floor_less_iff)
    then show ?thesis by (auto simp: round_half_even_def Let_def)
  qed
qed

lemma flog2_ge1: "1 \<le> q \<Longrightarrow> 0 \<le> flog2 q \<and> 2 ^ nat (flog2 q) \<le> q"
proof -
  assume q: "1 \<le> q"
  let ?n = "\<lfloor>q\<rfloor>"
  have n: "0 < ?n" using q by simp
  have b: "1 \<le> bitlen ?n" using n bitlen_ge_iff_power [of 1 ?n] by simp
  from bitlen_bounds [OF n] have "2 ^ nat (bitlen ?n - 1) \<le> ?n" ..
  then have "of_int (2 ^ nat (bitlen ?n - 1)) \<le> (of_int ?n :: rat)" by (simp only: of_int_le_iff)
  also have "\<dots> \<le> q" by simp
  finally show ?thesis using q b by (simp add: flog2_def)
qed

lemma flog2_int_bound:
  assumes "0 < n" "n < 2 ^ k"
  shows "flog2 (of_int n) < int k"
proof -
  have "bitlen n \<le> int k" using assms bitlen_le_iff_power [of n "int k"] by simp
  moreover have "(1::rat) \<le> of_int n" using assms by simp
  ultimately show ?thesis by (simp add: flog2_def)
qed

lemma flog2_le1: "0 < q \<Longrightarrow> q \<le> 1 \<Longrightarrow> flog2 q \<le> 0"
proof (cases "q = 1")
  case True
  have "bitlen 1 \<le> 1" using bitlen_le_iff_power [of 1 1] by simp
  with True show ?thesis by (simp add: flog2_def)
next
  case False
  assume "q \<le> 1"
  with False show ?thesis by (simp add: flog2_def bitlen_nonneg)
qed

lemma round64_int:
  assumes "\<bar>n\<bar> < 2 ^ 53"
  shows "round64 (of_int n) = Fin (of_int n)"
proof (cases "n = 0")
  case True
  then show ?thesis by (simp add: round64_def)
next
  case False
  define a where "a = \<bar>n\<bar>"
  have a: "0 < a" "a < 2 ^ 53" using False assms by (simp_all add: a_def)
  define e where "e = flog2 (of_int a)"
  have e0: "0 \<le> e" using flog2_ge1 [of "of_int a"] a by (simp add: e_def)
  have e52: "e \<le> 52" using flog2_int_bound [OF a] by (simp add: e_def)
  define d where "d = nat (52 - e)"
  have u: "(2::rat) powi (e - 52) = 1 / 2 ^ d"
    using e52 by (simp add: power_int_def d_def field_simps)
  have m: "(of_int a :: rat) / (1 / 2 ^ d) = of_int (a * 2 ^ d)" by simp
  have v: "of_int (round_half_even (of_int a / (2 powi (e - 52)))) * (2::rat) powi (e - 52) = of_int a"
    unfolding u m round_half_even_int by simp
  have small: "\<not> (2::rat) ^ 1024 \<le> of_int a"
  proof -
    have "(of_int a :: rat) < of_int (2 ^ 53)" using a by (simp only: of_int_less_iff)
    then show ?thesis by simp
  qed
  have abs: "\<bar>of_int n :: rat\<bar> = of_int a" by (simp add: a_def)
  have mx: "max (flog2 (of_int a)) (- 1022) = e" using e0 by (simp add: e_def)
  show ?thesis
    unfolding round64_def Let_def abs mx v using False small
    by (auto simp: a_def)
qed

lemma round64_nonneg:
  assumes "0 \<le> q"
  shows "round64 q = PInf \<or> (\<exists>v. round64 q = Fin v \<and> 0 \<le> v)"
proof (cases "q = 0")
  case True
  then show ?thesis by (simp add: round64_def)
next
  case False
  with assms have q: "0 < q" by simp
  define u where "u = (2::rat) powi (max (flog2 \<bar>q\<bar>) (- 1022) - 52)"
  have u: "0 < u" by (simp add: u_def)
  have "0 \<le> \<bar>q\<bar> / u" using u by simp
  then have "0 \<le> round_half_even (\<bar>q\<bar> / u)" using round_half_even_ge [of 0] by simp
  then have "0 \<le> of_int (round_half_even (\<bar>q\<bar> / u)) * u" using u by simp
  then show ?thesis using q False unfolding round64_def Let_def u_def [symmetric] by simp
qed

lemma round64_unit:
  assumes "0 \<le> q" "q \<le> 1"
  shows "\<exists>v. round64 q = Fin v \<and> 0 \<le> v \<and> v \<le> 1"
proof (cases "q = 0")
  case True
  then show ?thesis by (simp add: round64_def)
next
  case False
  with assms have q: "0 < q" by simp
  define e where "e = max (flog2 \<bar>q\<bar>) (- 1022)"
  define u where "u = (2::rat) powi (e - 52)"
  have u: "0 < u" by (simp add: u_def)
  have e: "e \<le> 0" using flog2_le1 [of q] q assms by (simp add: e_def)
  define K where "K = (2::int) ^ nat (52 - e)"
  have Ku: "of_int K * u = 1" using e by (simp add: K_def u_def power_int_def field_simps)
  then have uK: "1 / u = of_int K" using u by (simp add: field_simps)
  have "\<bar>q\<bar> / u \<le> of_int K" using assms q uK u by (simp add: field_simps)
  then have r1: "round_half_even (\<bar>q\<bar> / u) \<le> K" by (rule round_half_even_le)
  have "0 \<le> \<bar>q\<bar> / u" using u by simp
  then have r0: "0 \<le> round_half_even (\<bar>q\<bar> / u)" using round_half_even_ge [of 0] by simp
  define v where "v = of_int (round_half_even (\<bar>q\<bar> / u)) * u"
  have v0: "0 \<le> v" using r0 u by (simp add: v_def)
  have "v \<le> of_int K * u" unfolding v_def using r1 u by (simp add: mult_right_mono)
  then have v1: "v \<le> 1" using Ku by simp
  then have "\<not> 2 ^ 1024 \<le> v" by simp
  then have "round64 q = Fin v"
    using q False unfolding round64_def Let_def e_def [symmetric] u_def [symmetric] v_def [symmetric]
    by simp
  with v0 v1 show ?thesis by blast
qed

lemma round64_big:
  assumes "2 ^ 53 \<le> q"
  shows "round64 q = PInf \<or> (\<exists>v. round64 q = Fin v \<and> 2 ^ 53 \<le> v)"
proof -
  have "(1::rat) \<le> 2 ^ 53" by simp
  with assms have q: "0 < q" "1 \<le> q" by linarith+
  define f where "f = flog2 q"
  have f: "0 \<le> f" "2 ^ nat f \<le> q" using flog2_ge1 [OF q(2)] by (simp_all add: f_def)
  have f53: "53 \<le> f"
  proof -
    have "(2::int) ^ 53 \<le> \<lfloor>q\<rfloor>" using assms by (simp add: le_floor_iff)
    then have "54 \<le> bitlen \<lfloor>q\<rfloor>" using bitlen_ge_iff_power [of 54 "\<lfloor>q\<rfloor>"] by simp
    then show ?thesis using q by (simp add: f_def flog2_def)
  qed
  define u where "u = (2::rat) powi (f - 52)"
  have u: "0 < u" by (simp add: u_def)
  have u': "u = 2 ^ nat (f - 52)" using f53 by (simp add: u_def power_int_def)
  have pw: "(2::rat) ^ nat f = 2 ^ 52 * u"
  proof -
    have "nat f = 52 + nat (f - 52)" using f53 by simp
    then show ?thesis unfolding u' by (simp only: power_add)
  qed
  have "of_int (2 ^ 52) \<le> q / u" using f(2) u pw by (simp add: field_simps)
  then have r: "2 ^ 52 \<le> round_half_even (q / u)" by (rule round_half_even_ge)
  define v where "v = of_int (round_half_even (q / u)) * u"
  have "(2::rat) ^ 52 * u \<le> v" unfolding v_def using r u
    by (intro mult_right_mono) (simp_all add: of_int_le_iff [where 'a = rat and w = "2 ^ 52", simplified])
  moreover have "(2::rat) ^ 53 \<le> 2 ^ nat f" using f53 by (intro power_increasing) simp_all
  ultimately have v: "2 ^ 53 \<le> v" using pw by simp
  have mx: "max (flog2 \<bar>q\<bar>) (- 1022) = f" using f q by (simp add: f_def)
  have "round64 q = (if 2 ^ 1024 \<le> v then PInf else Fin v)"
    using q unfolding round64_def Let_def mx u_def [symmetric] v_def by simp
  with v show ?thesis by auto
qed

section \<open>The decimal text of an integer\<close>

text \<open>
  \<open>Number.prototype.toString\<close> prints an integer of magnitude below \<open>2^53\<close> as its
  decimal digits: the search for the shortest digits stops at the digits of the integer
  without its final zeros, which are put back.
\<close>

lemma declen_nonneg: "0 \<le> declen n"
proof (induction n rule: declen.induct)
  case (1 n)
  then show ?case by (subst declen.simps) simp
qed

lemma declen_pos: "0 < n \<Longrightarrow> 0 < declen n"
  using declen_nonneg [of "n div 10"] by (subst declen.simps) simp

lemma declen_bounds:
  "0 < n \<Longrightarrow> 10 ^ nat (declen n - 1) \<le> n \<and> n < 10 ^ nat (declen n)"
proof (induction n rule: declen.induct)
  case (1 n)
  have n: "0 < n" using 1(2) .
  show ?case
  proof (cases "n < 10")
    case True
    have "declen (n div 10) = 0" using True n by (subst declen.simps) simp
    then have "declen n = 1" using n by (subst declen.simps) simp
    then show ?thesis using True n by simp
  next
    case False
    define m where "m = n div 10"
    have m: "0 < m" using False by (simp add: m_def)
    have ih: "10 ^ nat (declen m - 1) \<le> m \<and> m < 10 ^ nat (declen m)"
      using 1(1) m n by (simp add: m_def)
    have d: "declen n = declen m + 1" using n by (subst declen.simps) (simp add: m_def)
    have dp: "0 < declen m" using declen_pos [OF m] .
    have e1: "nat (declen n - 1) = Suc (nat (declen m - 1))" using d dp by simp
    have e2: "nat (declen n) = Suc (nat (declen m))" using d dp by simp
    have "10 * m \<le> n" "n < 10 * (m + 1)" by (simp_all add: m_def)
    then show ?thesis unfolding e1 e2 using ih by simp
  qed
qed

lemma dec_times_ten: "0 < s \<Longrightarrow> dec (10 * s) = dec s @ [48]"
  by (subst dec.simps) simp

lemma dec_shift: "0 < s \<Longrightarrow> dec (s * 10 ^ j) = dec s @ replicate j 48"
proof (induction j)
  case 0
  then show ?case by simp
next
  case (Suc j)
  have "dec (s * 10 ^ Suc j) = dec (10 * (s * 10 ^ j))" by (simp add: mult.commute mult.left_commute)
  also have "\<dots> = dec (s * 10 ^ j) @ [48]" using Suc(2) by (intro dec_times_ten) simp
  also have "\<dots> = dec s @ replicate (Suc j) 48" using Suc by (simp add: replicate_append_same)
  finally show ?case .
qed

lemma round64_int_neq:
  assumes "0 < N" "N < 2 ^ 53" "M \<noteq> N" "0 \<le> M"
  shows "round64 (of_int M) \<noteq> Fin (of_int N)"
proof (cases "M < 2 ^ 53")
  case True
  then have "round64 (of_int M) = Fin (of_int M)" using assms(4) by (intro round64_int) simp
  then show ?thesis using assms(3) by simp
next
  case False
  then have "(2::rat) ^ 53 \<le> of_int M"
    by (metis (no_types) not_less of_int_le_iff of_int_numeral of_int_power)
  from round64_big [OF this]
  have "round64 (of_int M) = PInf \<or> (\<exists>v. round64 (of_int M) = Fin v \<and> 2 ^ 53 \<le> v)" .
  moreover have "(of_int N :: rat) < 2 ^ 53" using assms(2)
    by (metis of_int_less_iff of_int_numeral of_int_power)
  ultimately show ?thesis by auto
qed

lemma decimal_exponent_int: "0 < N \<Longrightarrow> decimal_exponent (of_int N) = declen N"
  by (simp add: decimal_exponent_def)

lemma digits_candidate_int:
  assumes N: "0 < N" "N < 2 ^ 53" and k: "1 \<le> k" "int k \<le> declen N"
  defines "j \<equiv> nat (declen N - int k)"
  shows "digits_candidate (of_int N) k =
           (if 10 ^ j dvd N then Some (N div 10 ^ j, declen N) else None)"
proof -
  define P where "P = (10::int) ^ j"
  have P: "0 < P" by (simp add: P_def)
  have sc: "(10::rat) powi (declen N - int k) = of_int P"
    using k by (simp add: power_int_def j_def P_def)
  define lo where "lo = N div P"
  have lo: "\<lfloor>(of_int N :: rat) / of_int P\<rfloor> = lo"
    by (simp add: lo_def floor_divide_of_int_eq)
  have lo0: "0 \<le> lo" using N P by (simp add: lo_def pos_imp_zdiv_nonneg_iff)
  have b: "N < 10 ^ nat (declen N)" using declen_bounds [OF N(1)] by simp
  have "nat (declen N) = j + k" using k by (simp add: j_def)
  then have b': "N < P * 10 ^ k" using b by (simp add: P_def power_add)
  have dm: "lo * P + N mod P = N" by (simp add: lo_def)
  have md: "0 \<le> N mod P" "N mod P < P" using P by simp_all
  have lo_le: "lo * P \<le> N" using dm md by linarith
  with b' have "lo * P < 10 ^ k * P" by (simp add: mult.commute)
  then have lok: "lo < 10 ^ k" using P by (simp add: mult_less_cancel_right)
  have m1: "(of_int lo :: rat) * of_int P = of_int (lo * P)" by simp
  have m2: "(of_int (lo + 1) :: rat) * of_int P = of_int ((lo + 1) * P)" by simp
  have hi_gt: "N < (lo + 1) * P" using dm md by (simp add: algebra_simps)
  have hi: "round64 (of_int ((lo + 1) * P)) \<noteq> Fin (of_int N)"
    using hi_gt lo0 P N by (intro round64_int_neq) simp_all
  show ?thesis
  proof (cases "P dvd N")
    case True
    then have e: "lo * P = N" by (simp add: lo_def)
    have ok: "round64 (of_int (lo * P)) = Fin (of_int N)" unfolding e using N by (intro round64_int) simp
    show ?thesis
      unfolding digits_candidate_def decimal_exponent_int [OF N(1)] sc lo Let_def m1 m2
      using True ok hi lok by (simp add: P_def [symmetric] lo_def [symmetric])
  next
    case False
    have "lo * P \<noteq> N" using False by (metis dvd_triv_right)
    then have ne: "lo * P \<noteq> N" "0 \<le> lo * P" using lo0 P by simp_all
    have nok: "round64 (of_int (lo * P)) \<noteq> Fin (of_int N)"
      using ne N by (intro round64_int_neq) simp_all
    show ?thesis
      unfolding digits_candidate_def decimal_exponent_int [OF N(1)] sc lo Let_def m1 m2
      using False nok hi by (simp add: P_def [symmetric])
  qed
qed


lemma shortest_digits_int:
  assumes N: "0 < N" "N < 2 ^ 53"
  shows "1 \<le> k \<Longrightarrow> int k \<le> declen N \<Longrightarrow> nat (declen N) - k < fuel \<Longrightarrow>
         \<exists>k' s. shortest_digits (of_int N) k fuel = (k', s, declen N)
            \<and> int k' \<le> declen N \<and> 0 < s \<and> s * 10 ^ nat (declen N - int k') = N"
proof (induction fuel arbitrary: k)
  case 0
  then show ?case by simp
next
  case (Suc m)
  define j where "j = nat (declen N - int k)"
  have c: "digits_candidate (of_int N) k =
      (if 10 ^ j dvd N then Some (N div 10 ^ j, declen N) else None)"
    unfolding j_def using N Suc(2,3) by (rule digits_candidate_int)
  show ?case
  proof (cases "(10::int) ^ j dvd N")
    case True
    then have e: "N div 10 ^ j * 10 ^ j = N" by simp
    have "0 < N div 10 ^ j"
    proof (rule ccontr)
      assume "\<not> 0 < N div 10 ^ j"
      moreover have "0 \<le> N div 10 ^ j" using N by (simp add: pos_imp_zdiv_nonneg_iff)
      ultimately have "N div 10 ^ j = 0" by simp
      with e N show False by simp
    qed
    then show ?thesis using True c e Suc(3) by (simp add: j_def)
  next
    case False
    then have "j \<noteq> 0" by (intro notI) simp
    then have k: "int (Suc k) \<le> declen N" by (simp add: j_def)
    have "nat (declen N) - Suc k < m" using Suc(4) k by simp
    from Suc(1) [OF _ k this] show ?thesis using False c by simp
  qed
qed

lemma declen_small:
  assumes "0 < N" "N < 2 ^ 53"
  shows "1 \<le> declen N \<and> declen N \<le> 16"
proof -
  have p: "0 < declen N" using declen_pos [OF assms(1)] .
  have b: "10 ^ nat (declen N - 1) \<le> N" using declen_bounds [OF assms(1)] by simp
  have "declen N \<le> 16"
  proof (rule ccontr)
    assume "\<not> declen N \<le> 16"
    then have "16 \<le> nat (declen N - 1)" by simp
    then have "(10::int) ^ 16 \<le> 10 ^ nat (declen N - 1)" by (intro power_increasing) simp_all
    with b assms(2) show False by simp
  qed
  with p show ?thesis by simp
qed

lemma positive_toString_int:
  assumes "0 < N" "N < 2 ^ 53"
  shows "positive_toString (of_int N) = dec N"
proof -
  have d: "1 \<le> declen N" "declen N \<le> 16" using declen_small [OF assms] by simp_all
  have "nat (declen N) - 1 < 17" using d by simp
  from shortest_digits_int [OF assms _ _ this]
  obtain k' s where r: "shortest_digits (of_int N) 1 17 = (k', s, declen N)"
    "int k' \<le> declen N" "0 < s" "s * 10 ^ nat (declen N - int k') = N"
    using d by auto
  have "dec s @ replicate (nat (declen N - int k')) 48 = dec N"
    using dec_shift [OF r(3), of "nat (declen N - int k')"] r(4) by simp
  then show ?thesis unfolding positive_toString_def r(1) using r(2) d by simp
qed

lemma Number_toString_int:
  assumes "\<bar>N\<bar> < 2 ^ 53"
  shows "Number_toString (Fin (of_int N)) = (if N < 0 then [45] @ dec (- N) else dec N)"
proof -
  have z: "dec 0 = js ''0''" by (subst dec.simps) (simp add: js_def)
  have n: "N < 0 \<Longrightarrow> positive_toString (- of_int N) = dec (- N)"
    using positive_toString_int [of "- N"] assms by simp
  have p: "0 < N \<Longrightarrow> positive_toString (of_int N) = dec N"
    using positive_toString_int [of N] assms by simp
  show ?thesis
    by (cases "N = 0") (auto simp: Number_toString_def z n p)
qed

section \<open>The pattern of the judge path\<close>

lemma star_any:
  "length t \<le> n \<Longrightarrow>
   star_iter (matcher (Class (\<lambda>c. True))) n (t, c) = map (\<lambda>u. (u, c)) (all_tails t)"
proof (induction t arbitrary: n)
  case Nil
  then show ?case by (cases n) simp_all
next
  case (Cons x r)
  then obtain n' where n: "n = Suc n'" "length r \<le> n'" by (cases n) auto
  with Cons.IH [OF n(2)] show ?case by simp
qed

lemma after_last_brace_Cons:
  "after_last_brace (x # r) =
     (if 125 \<in> set r then after_last_brace r else if x = 125 then r else x # r)"
proof (cases "125 \<in> set r")
  case True
  then have "takeWhile (\<lambda>c. c \<noteq> 125) (rev r @ [x]) = takeWhile (\<lambda>c. c \<noteq> 125) (rev r)"
    by (intro takeWhile_append1 [of 125]) simp_all
  with True show ?thesis by (simp add: after_last_brace_def)
next
  case False
  then have "takeWhile (\<lambda>c. c \<noteq> 125) (rev r @ [x]) = rev r @ takeWhile (\<lambda>c. c \<noteq> 125) [x]"
    by (intro takeWhile_append2) auto
  with False show ?thesis by (simp add: after_last_brace_def)
qed

lemma json_tail:
  "\<exists>rs. concat (map (matcher (Seq (Chr 125) Eps)) (map (\<lambda>u. (u, c)) (all_tails t)))
     = (if 125 \<in> set t then (after_last_brace t, c) # rs else [])"
proof (induction t)
  case Nil
  then show ?case by (simp add: Chr_def)
next
  case (Cons x r)
  from Cons.IH obtain rs where rs:
    "concat (map (matcher (Seq (Chr 125) Eps)) (map (\<lambda>u. (u, c)) (all_tails r)))
     = (if 125 \<in> set r then (after_last_brace r, c) # rs else [])" ..
  have last: "matcher (Seq (Chr 125) Eps) (x # r, c) = (if x = 125 then [(r, c)] else [])"
    by (simp add: Chr_def)
  have step: "concat (map (matcher (Seq (Chr 125) Eps)) (map (\<lambda>u. (u, c)) (all_tails (x # r))))
      = (if 125 \<in> set r then (after_last_brace r, c) # rs else [])
        @ (if x = 125 then [(r, c)] else [])"
    using rs last by simp
  show ?case
  proof (cases "125 \<in> set r")
    case True
    then have "concat (map (matcher (Seq (Chr 125) Eps)) (map (\<lambda>u. (u, c)) (all_tails (x # r))))
      = (after_last_brace (x # r), c) # (rs @ (if x = 125 then [(r, c)] else []))"
      unfolding step by (simp add: after_last_brace_Cons)
    with True show ?thesis by (simp only: list.set insert_iff if_True simp_thms) blast
  next
    case False
    then have "concat (map (matcher (Seq (Chr 125) Eps)) (map (\<lambda>u. (u, c)) (all_tails (x # r))))
      = (if x = 125 then (after_last_brace (x # r), c) # [] else [])"
      unfolding step by (simp add: after_last_brace_Cons)
    then show ?thesis using False by (cases "x = 125") (simp_all only: list.set insert_iff if_True if_False simp_thms, blast, simp)
  qed
qed

lemma matcher_jsonRegex_Nil: "matcher jsonRegex ([], c) = []"
  by (simp add: jsonRegex_def Seqs_def Chr_def)

lemma matcher_jsonRegex_Cons:
  "\<exists>rs. matcher jsonRegex (x # t, c) =
     (if x = 123 \<and> 125 \<in> set t then (after_last_brace t, c) # rs else [])"
proof (cases "x = 123")
  case True
  have "matcher jsonRegex (x # t, c) =
      concat (map (matcher (Seq (Chr 125) Eps)) (map (\<lambda>u. (u, c)) (all_tails t)))"
    using True star_any [of t "length t" c]
    by (simp add: jsonRegex_def Seqs_def Chr_def)
  with json_tail [of c t] True show ?thesis by auto
next
  case False
  then show ?thesis by (simp add: jsonRegex_def Seqs_def Chr_def)
qed

lemma regex_exec_json_none: "125 \<notin> set s \<Longrightarrow> regex_exec jsonRegex 0 s = None"
proof (induction s)
  case Nil
  show ?case by (subst regex_exec.simps) (simp add: matcher_jsonRegex_Nil)
next
  case (Cons x t)
  have "matcher jsonRegex (x # t, replicate (Suc 0) None) = []"
    using matcher_jsonRegex_Cons [of x t "replicate (Suc 0) None"] Cons.prems by auto
  with Cons show ?case by (subst regex_exec.simps) simp
qed

lemma after_last_brace_split:
  "rev (dropWhile (\<lambda>c. c \<noteq> 125) (rev t)) @ after_last_brace t = t"
proof -
  have "rev (takeWhile (\<lambda>c. c \<noteq> 125) (rev t) @ dropWhile (\<lambda>c. c \<noteq> 125) (rev t)) = t"
    by (simp only: takeWhile_dropWhile_id rev_rev_ident)
  then show ?thesis by (simp only: rev_append after_last_brace_def)
qed

lemma take_span:
  "take (length (x # t) - length (after_last_brace t)) (x # t)
     = x # rev (dropWhile (\<lambda>c. c \<noteq> 125) (rev t))"
proof -
  define w where "w = x # rev (dropWhile (\<lambda>c. c \<noteq> 125) (rev t))"
  have "x # t = w @ after_last_brace t"
    using after_last_brace_split [of t] by (simp add: w_def)
  then have "take (length (x # t) - length (after_last_brace t)) (x # t) = take (length w) (w @ after_last_brace t)"
    by simp
  then show ?thesis by (simp add: w_def)
qed

lemma regex_exec_jsonRegex:
  "regex_exec jsonRegex 0 s =
     map_option (\<lambda>w. (w, after_last_brace s, [None])) (brace_span s)"
proof (induction s)
  case Nil
  have "regex_exec jsonRegex 0 [] = None" by (rule regex_exec_json_none) simp
  then show ?case by (simp add: brace_span_def)
next
  case (Cons x t)
  obtain rs where m: "matcher jsonRegex (x # t, replicate (Suc 0) None) =
      (if x = 123 \<and> 125 \<in> set t then (after_last_brace t, replicate (Suc 0) None) # rs else [])"
    using matcher_jsonRegex_Cons [of x t "replicate (Suc 0) None"] by auto
  show ?case
  proof (cases "x = 123 \<and> 125 \<in> set t")
    case True
    then have x: "x \<noteq> 125" by auto
    have "regex_exec jsonRegex 0 (x # t) =
        Some (take (length (x # t) - length (after_last_brace t)) (x # t), after_last_brace t, [None])"
      using True m by (subst regex_exec.simps) simp
    also have "\<dots> = Some (x # rev (dropWhile (\<lambda>c. c \<noteq> 125) (rev t)), after_last_brace t, [None])"
      by (simp only: take_span)
    finally have ex: "regex_exec jsonRegex 0 (x # t) =
        Some (x # rev (dropWhile (\<lambda>c. c \<noteq> 125) (rev t)), after_last_brace t, [None])" .
    have "dropWhile (\<lambda>c. c \<noteq> 125) (rev t @ [x]) = dropWhile (\<lambda>c. c \<noteq> 125) (rev t) @ [x]"
      using True by (intro dropWhile_append1 [of 125]) simp_all
    then have "brace_span (x # t) = Some (x # rev (dropWhile (\<lambda>c. c \<noteq> 125) (rev t)))"
      using True by (simp add: brace_span_def)
    with ex True show ?thesis by (simp add: after_last_brace_Cons)
  next
    case False
    with m have "matcher jsonRegex (x # t, replicate (Suc 0) None) = []" by simp
    then have ex: "regex_exec jsonRegex 0 (x # t) = regex_exec jsonRegex 0 t"
      by (subst regex_exec.simps) simp
    show ?thesis
    proof (cases "x = 123")
      case True
      with False have "125 \<notin> set t" by simp
      then have "regex_exec jsonRegex 0 t = None" by (rule regex_exec_json_none)
      with ex True \<open>125 \<notin> set t\<close> show ?thesis by (simp add: brace_span_def)
    next
      case False
      have bs: "brace_span (x # t) = brace_span t" using False by (simp add: brace_span_def)
      show ?thesis
      proof (cases "brace_span t")
        case None
        with ex Cons.IH bs show ?thesis by simp
      next
        case (Some w)
        then have "dropWhile (\<lambda>c. c \<noteq> 123) t \<noteq> []"
          and "125 \<in> set (tl (dropWhile (\<lambda>c. c \<noteq> 123) t))"
          by (simp_all add: brace_span_def Let_def split: if_splits)
        then have "125 \<in> set (dropWhile (\<lambda>c. c \<noteq> 123) t)"
          by (rule list.set_sel(2))
        then have "125 \<in> set t" by (rule set_dropWhileD)
        with ex Cons.IH bs Some show ?thesis by (simp add: after_last_brace_Cons)
      qed
    qed
  qed
qed

lemma match_jsonRegex: "match jsonRegex 0 s = map_option (\<lambda>w. (w, [None])) (brace_span s)"
  by (cases "brace_span s") (simp_all add: match_def regex_exec_jsonRegex)

section \<open>The rubric evaluator on the judge path\<close>

lemma neutral_eq: "neutral = \<lparr>rubric.accuracy = Fin (1 / 2), rubric.relevancy = Fin (1 / 2), details = None\<rparr>"
  by (simp add: neutral_def lit_half)

lemma subjective_judge:
  "analyzePrompt prompt = Inr pa \<Longrightarrow> type pa = Subjective \<Longrightarrow>
   evaluateWithRubric create_fn resp prompt = Inr (judge create_fn resp prompt)"
  by (simp add: evaluateWithRubric_def split: option.splits)

lemma no_match_subjective:
  "match letterCountRegex 2 prompt = None \<Longrightarrow> match wordCountRegex 1 prompt = None \<Longrightarrow>
   match mathRegex 3 prompt = None \<Longrightarrow>
   analyzePrompt prompt = Inr \<lparr>type = Subjective, expectedAnswer = None, evaluationFunction = None\<rparr>"
  unfolding analyzePrompt_def by simp

lemma parse_scores_span:
  "parse_scores t =
     (case brace_span t of
        None \<Rightarrow> None
      | Some sp \<Rightarrow>
          (case JSON_parse sp of
             None \<Rightarrow> None
           | Some scores \<Rightarrow>
               (case ToNumber (get_prop scores (js ''accuracy'')) of
                  None \<Rightarrow> None
                | Some a \<Rightarrow>
                    (case ToNumber (get_prop scores (js ''relevancy'')) of
                       None \<Rightarrow> None
                     | Some r \<Rightarrow>
                         Some \<lparr>rubric.accuracy = num_div a (Fin 100),
                               rubric.relevancy = num_div r (Fin 100),
                               details =
                                 Some (Details_subjective
                                   (obj_put (js ''evaluationType'') (JStr (js ''subjective''))
                                      (case scores of JObj kvs \<Rightarrow> kvs | _ \<Rightarrow> [])))\<rparr>))))"
  by (simp add: parse_scores_def match_jsonRegex split: option.splits)

lemma div100_unit:
  assumes "0 \<le> x" "x \<le> 100"
  shows "in_unit_interval (num_div (Fin x) (Fin 100))"
proof -
  have "0 \<le> x / 100" "x / 100 \<le> 1" using assms by simp_all
  from round64_unit [OF this] obtain v where "round64 (x / 100) = Fin v" "0 \<le> v" "v \<le> 1"
    by blast
  then show ?thesis by (simp add: num_div_def in_unit_interval_def)
qed

lemma neutral_unit: "in_unit_interval (rubric.accuracy neutral)" "in_unit_interval (rubric.relevancy neutral)"
  by (simp_all add: neutral_eq in_unit_interval_def)

lemma tell_letter: "match letterCountRegex 2 (js ''tell me a joke'') = None"
  by code_simp

lemma tell_word: "match wordCountRegex 1 (js ''tell me a joke'') = None"
  by code_simp

lemma tell_math: "match mathRegex 3 (js ''tell me a joke'') = None"
  by code_simp

lemma tell_subjective:
  "analyzePrompt (js ''tell me a joke'') = Inr \<lparr>type = Subjective, expectedAnswer = None, evaluationFunction = None\<rparr>"
  using tell_letter tell_word tell_math by (rule no_match_subjective)

text \<open>
  C6. On the subjective path, when the call of the judge throws, when the answer of the
  judge holds no text that the pattern matches, or when \<open>JSON.parse\<close> throws on the
  matched text, \<open>evaluateWithRubric\<close> returns accuracy 0.5 and relevancy 0.5 (with no
  details) and does not throw.
\<close>

theorem judge_failure_is_neutral:
  assumes "analyzePrompt prompt = Inr pa" and "type pa = Subjective"
    and "(\<exists>e. create_fn (judge_request prompt resp) = Inl e)
       \<or> (\<exists>ev. create_fn (judge_request prompt resp) = Inr ev
              \<and> (match jsonRegex 0 (judge_content ev) = None
                  \<or> (\<exists>m gs. match jsonRegex 0 (judge_content ev) = Some (m, gs) \<and> JSON_parse m = None)))"
  shows "evaluateWithRubric create_fn resp prompt =
           Inr \<lparr>rubric.accuracy = Fin (1 / 2), rubric.relevancy = Fin (1 / 2), details = None\<rparr>"
proof -
  have "judge create_fn resp prompt = neutral"
    using assms(3) by (auto simp: judge_def parse_scores_def)
  with subjective_judge [OF assms(1,2)] show ?thesis by (simp add: neutral_eq)
qed

theorem judge_failure_is_neutral_witness:
  "analyzePrompt (js ''tell me a joke'') =
     Inr \<lparr>type = Subjective, expectedAnswer = None, evaluationFunction = None\<rparr>
   \<and> create failing_env (judge_request (js ''tell me a joke'') (js ''ha'')) = Inl (Error (js ''rate limit''))
   \<and> evaluateWithRubric (create failing_env) (js ''ha'') (js ''tell me a joke'') =
       Inr \<lparr>rubric.accuracy = Fin (1 / 2), rubric.relevancy = Fin (1 / 2), details = None\<rparr>"
proof -
  have h: "create failing_env (judge_request (js ''tell me a joke'') (js ''ha'')) = Inl (Error (js ''rate limit''))"
    by (simp add: failing_env_def)
  then have d: "(\<exists>e. create failing_env (judge_request (js ''tell me a joke'') (js ''ha'')) = Inl e)
       \<or> (\<exists>ev. create failing_env (judge_request (js ''tell me a joke'') (js ''ha'')) = Inr ev
              \<and> (match jsonRegex 0 (judge_content ev) = None
                  \<or> (\<exists>m gs. match jsonRegex 0 (judge_content ev) = Some (m, gs) \<and> JSON_parse m = None)))"
    by blast
  have "evaluateWithRubric (create failing_env) (js ''ha'') (js ''tell me a joke'') =
       Inr \<lparr>rubric.accuracy = Fin (1 / 2), rubric.relevancy = Fin (1 / 2), details = None\<rparr>"
    using judge_failure_is_neutral
      [where create_fn = "create failing_env" and resp = "js ''ha''", OF tell_subjective _ d]
    by simp
  with tell_subjective h show ?thesis by blast
qed

lemma judged_500: "judge (create (judged_env (json_scores_text 500 90))) (js ''ha'') (js ''tell me a joke'')
   = \<lparr>rubric.accuracy = Fin 5, rubric.relevancy = num_div (Fin 90) (Fin 100),
      details = Some (Details_subjective [(js ''accuracy'', JNum (Fin 500)), (js ''relevancy'', JNum (Fin 90)), (js ''evaluationType'', JStr (js ''subjective''))])\<rparr>"
  by code_simp

lemma two_objects_parse:
  "JSON_parse (json_scores_text 80 70) = Some (JObj [(js ''accuracy'', JNum (Fin 80)), (js ''relevancy'', JNum (Fin 70))])"
  by code_simp

lemma two_objects_judge:
  "judge (create (judged_env (json_scores_text 80 70 @ js '' {}''))) (js ''ha'') (js ''tell me a joke'')
   = \<lparr>rubric.accuracy = Fin (1 / 2), rubric.relevancy = Fin (1 / 2), details = None\<rparr>"
  by code_simp

lemma scores_85: "judge_scores (create (judged_env (json_scores_text 85 90))) (js ''ha'') (js ''tell me a joke'')
  = Some (JObj [(js ''accuracy'', JNum (Fin 85)), (js ''relevancy'', JNum (Fin 90))])"
  by code_simp

lemma judge_span:
  assumes "create_fn (judge_request prompt resp) = Inr ev"
  shows "judge create_fn resp prompt =
      (case brace_span (judge_content ev) of
         None \<Rightarrow> neutral
       | Some sp \<Rightarrow>
           (case JSON_parse sp of
              None \<Rightarrow> neutral
            | Some scores \<Rightarrow>
                (case ToNumber (get_prop scores (js ''accuracy'')) of
                   None \<Rightarrow> neutral
                 | Some a \<Rightarrow>
                     (case ToNumber (get_prop scores (js ''relevancy'')) of
                        None \<Rightarrow> neutral
                      | Some r \<Rightarrow>
                          \<lparr>rubric.accuracy = num_div a (Fin 100),
                           rubric.relevancy = num_div r (Fin 100),
                           details =
                             Some (Details_subjective
                               (obj_put (js ''evaluationType'') (JStr (js ''subjective''))
                                  (case scores of JObj kvs \<Rightarrow> kvs | _ \<Rightarrow> [])))\<rparr>))))"
  using assms by (simp add: judge_def parse_scores_span split: option.splits)

text \<open>
  C5, as amended. On the subjective path, when the call of the judge returns,
  \<open>evaluateWithRubric\<close> takes the text from the first opening brace to the last
  closing brace of the trimmed answer (not the first JSON object in it), parses that text
  as JSON and, when the parsing and the conversion of the two fields to numbers succeed,
  returns the accuracy and relevancy fields divided by 100; otherwise it returns the
  neutral result.
\<close>

theorem judge_divides_span_scores:
  assumes "analyzePrompt prompt = Inr pa" and "type pa = Subjective"
    and "create_fn (judge_request prompt resp) = Inr ev"
  shows "evaluateWithRubric create_fn resp prompt =
     Inr (case brace_span (judge_content ev) of
            None \<Rightarrow> neutral
          | Some sp \<Rightarrow>
              (case JSON_parse sp of
                 None \<Rightarrow> neutral
               | Some scores \<Rightarrow>
                   (case ToNumber (get_prop scores (js ''accuracy'')) of
                      None \<Rightarrow> neutral
                    | Some a \<Rightarrow>
                        (case ToNumber (get_prop scores (js ''relevancy'')) of
                           None \<Rightarrow> neutral
                         | Some r \<Rightarrow>
                             \<lparr>rubric.accuracy = num_div a (Fin 100),
                              rubric.relevancy = num_div r (Fin 100),
                              details =
                                Some (Details_subjective
                                  (obj_put (js ''evaluationType'') (JStr (js ''subjective''))
                                     (case scores of JObj kvs \<Rightarrow> kvs | _ \<Rightarrow> [])))\<rparr>))))"
  using subjective_judge [OF assms(1,2)] judge_span [of create_fn prompt resp ev, OF assms(3)] by simp

lemma span_85: "brace_span (judge_content \<lparr>content = Some (json_scores_text 85 90), total_tokens = None\<rparr>)
   = Some (json_scores_text 85 90)"
  by code_simp

lemma parse_85: "JSON_parse (json_scores_text 85 90)
   = Some (JObj [(js ''accuracy'', JNum (Fin 85)), (js ''relevancy'', JNum (Fin 90))])"
  by code_simp

theorem judge_divides_span_scores_witness:
  "analyzePrompt (js ''tell me a joke'') =
     Inr \<lparr>type = Subjective, expectedAnswer = None, evaluationFunction = None\<rparr>
   \<and> create (judged_env (json_scores_text 85 90)) (judge_request (js ''tell me a joke'') (js ''ha''))
       = Inr \<lparr>content = Some (json_scores_text 85 90), total_tokens = None\<rparr>
   \<and> evaluateWithRubric (create (judged_env (json_scores_text 85 90))) (js ''ha'') (js ''tell me a joke'') =
       Inr \<lparr>rubric.accuracy = num_div (Fin 85) (Fin 100),
            rubric.relevancy = num_div (Fin 90) (Fin 100),
            details = Some (Details_subjective
              [(js ''accuracy'', JNum (Fin 85)), (js ''relevancy'', JNum (Fin 90)),
               (js ''evaluationType'', JStr (js ''subjective''))])\<rparr>"
proof -
  have h: "create (judged_env (json_scores_text 85 90)) (judge_request (js ''tell me a joke'') (js ''ha''))
       = Inr \<lparr>content = Some (json_scores_text 85 90), total_tokens = None\<rparr>"
    by (simp add: judged_env_def)
  have p: "get_prop (JObj [(js ''accuracy'', JNum (Fin 85)), (js ''relevancy'', JNum (Fin 90))]) (js ''accuracy'') = Some (JNum (Fin 85))"
    "get_prop (JObj [(js ''accuracy'', JNum (Fin 85)), (js ''relevancy'', JNum (Fin 90))]) (js ''relevancy'') = Some (JNum (Fin 90))"
    by code_simp+
  have o: "js ''evaluationType'' \<noteq> js ''accuracy''" "js ''evaluationType'' \<noteq> js ''relevancy''"
    by code_simp+
  have "evaluateWithRubric (create (judged_env (json_scores_text 85 90))) (js ''ha'') (js ''tell me a joke'') =
       Inr \<lparr>rubric.accuracy = num_div (Fin 85) (Fin 100),
            rubric.relevancy = num_div (Fin 90) (Fin 100),
            details = Some (Details_subjective
              [(js ''accuracy'', JNum (Fin 85)), (js ''relevancy'', JNum (Fin 90)),
               (js ''evaluationType'', JStr (js ''subjective''))])\<rparr>"
    using judge_divides_span_scores
      [of "js ''tell me a joke''" _ "create (judged_env (json_scores_text 85 90))" "js ''ha''",
       OF tell_subjective _ h]
    by (simp add: span_85 parse_85 p o ToNumber_def)
  with tell_subjective h show ?thesis by blast
qed

text \<open>
  The claim as stated fails when the answer holds a second pair of braces: the first JSON
  object of the answer below has accuracy 80 and relevancy 70, and the result is the
  neutral one.
\<close>

theorem judge_divides_span_scores_counterexample:
  "JSON_parse (json_scores_text 80 70) =
     Some (JObj [(js ''accuracy'', JNum (Fin 80)), (js ''relevancy'', JNum (Fin 70))])
   \<and> analyzePrompt (js ''tell me a joke'') =
     Inr \<lparr>type = Subjective, expectedAnswer = None, evaluationFunction = None\<rparr>
   \<and> create (judged_env (json_scores_text 80 70 @ js '' {}'')) (judge_request (js ''tell me a joke'') (js ''ha''))
       = Inr \<lparr>content = Some (json_scores_text 80 70 @ js '' {}''), total_tokens = None\<rparr>
   \<and> evaluateWithRubric (create (judged_env (json_scores_text 80 70 @ js '' {}''))) (js ''ha'') (js ''tell me a joke'')
       = Inr \<lparr>rubric.accuracy = Fin (1 / 2), rubric.relevancy = Fin (1 / 2), details = None\<rparr>"
proof -
  have "evaluateWithRubric (create (judged_env (json_scores_text 80 70 @ js '' {}''))) (js ''ha'') (js ''tell me a joke'')
       = Inr (judge (create (judged_env (json_scores_text 80 70 @ js '' {}''))) (js ''ha'') (js ''tell me a joke''))"
    by (rule subjective_judge [OF tell_subjective]) simp
  then show ?thesis
    using two_objects_parse tell_subjective two_objects_judge by (simp add: judged_env_def)
qed

text \<open>
  C2, as amended. For every prompt that matches none of the three templates,
  \<open>evaluateWithRubric\<close> takes the judge path. Its accuracy and relevancy are in the
  interval from 0 to 1 when the judge gives no JSON value (the neutral result) and when
  the parsed object gives accuracy and relevancy as numbers from 0 to 100; the scores are
  divided by 100 and not clamped.
\<close>

theorem subjective_scores_bounded:
  assumes "match letterCountRegex 2 prompt = None" and "match wordCountRegex 1 prompt = None"
    and "match mathRegex 3 prompt = None"
  shows "evaluateWithRubric create_fn resp prompt = Inr (judge create_fn resp prompt)
    \<and> (judge_scores create_fn resp prompt = None \<longrightarrow>
         judge create_fn resp prompt = neutral
         \<and> in_unit_interval (rubric.accuracy (judge create_fn resp prompt))
         \<and> in_unit_interval (rubric.relevancy (judge create_fn resp prompt)))
    \<and> (\<forall>scores x y.
          judge_scores create_fn resp prompt = Some scores
          \<and> get_prop scores (js ''accuracy'') = Some (JNum (Fin x)) \<and> 0 \<le> x \<and> x \<le> 100
          \<and> get_prop scores (js ''relevancy'') = Some (JNum (Fin y)) \<and> 0 \<le> y \<and> y \<le> 100
          \<longrightarrow> rubric.accuracy (judge create_fn resp prompt) = num_div (Fin x) (Fin 100)
              \<and> rubric.relevancy (judge create_fn resp prompt) = num_div (Fin y) (Fin 100)
              \<and> in_unit_interval (rubric.accuracy (judge create_fn resp prompt))
              \<and> in_unit_interval (rubric.relevancy (judge create_fn resp prompt)))"
proof (intro conjI impI allI)
  have sub: "analyzePrompt prompt = Inr \<lparr>type = Subjective, expectedAnswer = None, evaluationFunction = None\<rparr>"
    using assms by (rule no_match_subjective)
  show "evaluateWithRubric create_fn resp prompt = Inr (judge create_fn resp prompt)"
    by (rule subjective_judge [OF sub]) simp
  {
    assume n: "judge_scores create_fn resp prompt = None"
    show j: "judge create_fn resp prompt = neutral"
    proof (cases "create_fn (judge_request prompt resp)")
      case (Inl e)
      then show ?thesis by (simp add: judge_def)
    next
      case (Inr ev)
      with n show ?thesis
        by (simp add: judge_span [of create_fn prompt resp ev, OF Inr] judge_scores_def
            split: option.splits)
    qed
    show "in_unit_interval (rubric.accuracy (judge create_fn resp prompt))"
      "in_unit_interval (rubric.relevancy (judge create_fn resp prompt))"
      unfolding j by (rule neutral_unit)+
  }
  fix scores x y
  assume a: "judge_scores create_fn resp prompt = Some scores
          \<and> get_prop scores (js ''accuracy'') = Some (JNum (Fin x)) \<and> 0 \<le> x \<and> x \<le> 100
          \<and> get_prop scores (js ''relevancy'') = Some (JNum (Fin y)) \<and> 0 \<le> y \<and> y \<le> 100"
  then obtain ev where ev: "create_fn (judge_request prompt resp) = Inr ev"
    by (cases "create_fn (judge_request prompt resp)") (simp_all add: judge_scores_def)
  with a obtain sp where sp: "brace_span (judge_content ev) = Some sp" "JSON_parse sp = Some scores"
    by (auto simp: judge_scores_def split: option.splits)
  from a sp show acc: "rubric.accuracy (judge create_fn resp prompt) = num_div (Fin x) (Fin 100)"
    by (simp add: judge_span [of create_fn prompt resp ev, OF ev] ToNumber_def)
  from a sp show rel: "rubric.relevancy (judge create_fn resp prompt) = num_div (Fin y) (Fin 100)"
    by (simp add: judge_span [of create_fn prompt resp ev, OF ev] ToNumber_def)
  from a show "in_unit_interval (rubric.accuracy (judge create_fn resp prompt))"
    unfolding acc by (intro div100_unit) simp_all
  from a show "in_unit_interval (rubric.relevancy (judge create_fn resp prompt))"
    unfolding rel by (intro div100_unit) simp_all
qed

theorem subjective_scores_bounded_witness:
  "match letterCountRegex 2 (js ''tell me a joke'') = None
   \<and> match wordCountRegex 1 (js ''tell me a joke'') = None
   \<and> match mathRegex 3 (js ''tell me a joke'') = None
   \<and> judge_scores (create (judged_env (json_scores_text 85 90))) (js ''ha'') (js ''tell me a joke'')
       = Some (JObj [(js ''accuracy'', JNum (Fin 85)), (js ''relevancy'', JNum (Fin 90))])
   \<and> evaluateWithRubric (create (judged_env (json_scores_text 85 90))) (js ''ha'') (js ''tell me a joke'')
       = Inr (judge (create (judged_env (json_scores_text 85 90))) (js ''ha'') (js ''tell me a joke''))
   \<and> rubric.accuracy (judge (create (judged_env (json_scores_text 85 90))) (js ''ha'') (js ''tell me a joke''))
       = num_div (Fin 85) (Fin 100)
   \<and> in_unit_interval (rubric.accuracy (judge (create (judged_env (json_scores_text 85 90))) (js ''ha'') (js ''tell me a joke'')))
   \<and> in_unit_interval (rubric.relevancy (judge (create (judged_env (json_scores_text 85 90))) (js ''ha'') (js ''tell me a joke'')))"
proof -
  have p: "get_prop (JObj [(js ''accuracy'', JNum (Fin 85)), (js ''relevancy'', JNum (Fin 90))]) (js ''accuracy'') = Some (JNum (Fin 85))"
    "get_prop (JObj [(js ''accuracy'', JNum (Fin 85)), (js ''relevancy'', JNum (Fin 90))]) (js ''relevancy'') = Some (JNum (Fin 90))"
    by code_simp+
  note T = subjective_scores_bounded [OF tell_letter tell_word tell_math,
        of "create (judged_env (json_scores_text 85 90))" "js ''ha''"]
  from T have routed:
    "evaluateWithRubric (create (judged_env (json_scores_text 85 90))) (js ''ha'') (js ''tell me a joke'')
       = Inr (judge (create (judged_env (json_scores_text 85 90))) (js ''ha'') (js ''tell me a joke''))"
    by (rule conjunct1)
  have ante: "judge_scores (create (judged_env (json_scores_text 85 90))) (js ''ha'') (js ''tell me a joke'')
        = Some (JObj [(js ''accuracy'', JNum (Fin 85)), (js ''relevancy'', JNum (Fin 90))])
      \<and> get_prop (JObj [(js ''accuracy'', JNum (Fin 85)), (js ''relevancy'', JNum (Fin 90))]) (js ''accuracy'')
          = Some (JNum (Fin 85)) \<and> (0::rat) \<le> 85 \<and> (85::rat) \<le> 100
      \<and> get_prop (JObj [(js ''accuracy'', JNum (Fin 85)), (js ''relevancy'', JNum (Fin 90))]) (js ''relevancy'')
          = Some (JNum (Fin 90)) \<and> (0::rat) \<le> 90 \<and> (90::rat) \<le> 100"
    using scores_85 p by simp
  from T [THEN conjunct2, THEN conjunct2, rule_format, OF ante]
  have "rubric.accuracy (judge (create (judged_env (json_scores_text 85 90))) (js ''ha'') (js ''tell me a joke''))
       = num_div (Fin 85) (Fin 100)
   \<and> in_unit_interval (rubric.accuracy (judge (create (judged_env (json_scores_text 85 90))) (js ''ha'') (js ''tell me a joke'')))
   \<and> in_unit_interval (rubric.relevancy (judge (create (judged_env (json_scores_text 85 90))) (js ''ha'') (js ''tell me a joke'')))"
    by blast
  with routed tell_letter tell_word tell_math scores_85 show ?thesis by blast
qed

text \<open>
  The claim as stated fails on an answer of the judge with a score above 100: accuracy
  500 gives 5.
\<close>

theorem subjective_scores_bounded_counterexample:
  "match letterCountRegex 2 (js ''tell me a joke'') = None
   \<and> match wordCountRegex 1 (js ''tell me a joke'') = None
   \<and> match mathRegex 3 (js ''tell me a joke'') = None
   \<and> create (judged_env (json_scores_text 500 90)) (judge_request (js ''tell me a joke'') (js ''ha''))
       = Inr \<lparr>content = Some (json_scores_text 500 90), total_tokens = None\<rparr>
   \<and> map_sum id rubric.accuracy
        (evaluateWithRubric (create (judged_env (json_scores_text 500 90))) (js ''ha'') (js ''tell me a joke''))
       = Inr (Fin 5)
   \<and> \<not> in_unit_interval (Fin 5)"
proof -
  have "evaluateWithRubric (create (judged_env (json_scores_text 500 90))) (js ''ha'') (js ''tell me a joke'')
       = Inr (judge (create (judged_env (json_scores_text 500 90))) (js ''ha'') (js ''tell me a joke''))"
    by (rule subjective_judge [OF tell_subjective]) simp
  then show ?thesis
    using tell_letter tell_word tell_math judged_500
    by (simp add: judged_env_def in_unit_interval_def)
qed

section \<open>The batch\<close>

lemma evaluatePrompt_results:
  "\<exists>rs. evaluatePrompt env prompt = Inr rs
      \<and> list_all2 (\<lambda>m r. model r = m \<and> call_result (create (env m) (chat_request prompt m)) r) models rs"
proof -
  have "\<And>m. \<exists>r. getGroqResponse (env m) prompt m = Inr r
      \<and> (model r = m \<and> call_result (create (env m) (chat_request prompt m)) r)"
    using getGroqResponse_cases by blast
  from promise_all_map [of "\<lambda>m. getGroqResponse (env m) prompt m"
      "\<lambda>m r. model r = m \<and> call_result (create (env m) (chat_request prompt m)) r" models, OF this]
  obtain rs where "promise_all (map (\<lambda>m. getGroqResponse (env m) prompt m) models) = Inr rs"
    "list_all2 (\<lambda>m r. model r = m \<and> call_result (create (env m) (chat_request prompt m)) r) models rs"
    by blast
  then show ?thesis by (simp add: evaluatePrompt_def)
qed

text \<open>
  C1, as amended. For every prompt and whatever the calls do, \<open>evaluatePrompt\<close>
  resolves with exactly one result for each of the four configured models. A result whose
  model call threw has the empty response and an error string (the message of the Error
  thrown, or \<open>Unknown error\<close>); a result whose model call returned has no error and
  the returned content as response, the empty string when the content is missing.
\<close>

theorem evaluatePrompt_one_result_per_model:
  "\<exists>rs. evaluatePrompt env prompt = Inr rs \<and> length rs = 4
      \<and> list_all2 (\<lambda>m r. model r = m \<and> call_result (create (env m) (chat_request prompt m)) r) models rs"
proof -
  from evaluatePrompt_results obtain rs where rs: "evaluatePrompt env prompt = Inr rs"
    "list_all2 (\<lambda>m r. model r = m \<and> call_result (create (env m) (chat_request prompt m)) r) models rs"
    by blast
  from rs(2) have "length rs = length models" by (simp add: list_all2_lengthD)
  then have "length rs = 4" by (simp add: models_def)
  with rs show ?thesis by blast
qed

text \<open>
  The claim as stated fails when the calls return a completion without content: every
  result then has the empty response and no error.
\<close>

theorem evaluatePrompt_one_result_per_model_counterexample:
  "create silent_env (chat_request (js ''tell me a joke'') (js ''gemma2-9b-it'')) =
     Inr \<lparr>content = None, total_tokens = None\<rparr>
   \<and> map_sum id (map (\<lambda>r. (response r, error r)))
        (evaluatePrompt (\<lambda>m. silent_env) (js ''tell me a joke''))
     = Inr [([], None), ([], None), ([], None), ([], None)]"
proof -
  from evaluatePrompt_results [of "\<lambda>m. silent_env" "js ''tell me a joke''"]
  obtain rs where rs: "evaluatePrompt (\<lambda>m. silent_env) (js ''tell me a joke'') = Inr rs"
    "list_all2 (\<lambda>m r. model r = m \<and> call_result (create silent_env (chat_request (js ''tell me a joke'') m)) r) models rs"
    by blast
  from rs(2) have "map (\<lambda>r. (response r, error r)) rs = [([], None), ([], None), ([], None), ([], None)]"
    by (auto simp: models_def list_all2_Cons1 call_result_def silent_env_def)
  with rs(1) show ?thesis by (simp add: silent_env_def)
qed


section \<open>The content of the groups\<close>

lemma star_iter_inv:
  assumes refl: "\<And>st. R st st"
    and trans: "\<And>a b c. R a b \<Longrightarrow> R b c \<Longrightarrow> R a c"
    and step: "\<And>st st'. st' \<in> set (f st) \<Longrightarrow> R st st'"
  shows "st' \<in> set (star_iter f n st) \<Longrightarrow> R st st'"
proof (induction n arbitrary: st)
  case 0
  then show ?case by (simp add: refl)
next
  case (Suc n)
  from Suc.prems consider "st' = st"
    | m where "m \<in> set (f st)" "st' \<in> set (star_iter f n m)"
    by auto
  then show ?case
  proof cases
    case 1
    then show ?thesis by (simp add: refl)
  next
    case 2
    then show ?thesis using step Suc.IH trans by blast
  qed
qed

lemma class_consumes:
  "st' \<in> set (matcher (Class P) st) \<Longrightarrow> \<exists>c. fst st = c # fst st' \<and> P c \<and> snd st' = snd st"
  by (cases "fst st") (auto split: if_splits)

lemma star_class_consumes:
  assumes "st' \<in> set (matcher (Star (Class P)) st)"
  shows "consumes P st st'"
proof -
  have "st' \<in> set (star_iter (matcher (Class P)) (length (fst st)) st)" using assms by simp
  then show ?thesis
  proof (rule star_iter_inv [where R = "consumes P", rotated -1])
    show "\<And>st. consumes P st st" by (simp add: consumes_def)
    show "\<And>a b c. consumes P a b \<Longrightarrow> consumes P b c \<Longrightarrow> consumes P a c"
      unfolding consumes_def by (metis append.assoc list_all_append)
    show "\<And>st st'. st' \<in> set (matcher (Class P) st) \<Longrightarrow> consumes P st st'"
    proof -
      fix st st' assume "st' \<in> set (matcher (Class P) st)"
      from class_consumes [OF this] obtain c where "fst st = c # fst st'" "P c" "snd st' = snd st"
        by blast
      then have "fst st = [c] @ fst st' \<and> list_all P [c] \<and> snd st' = snd st" by simp
      then show "consumes P st st'" unfolding consumes_def by blast
    qed
  qed
qed

lemma plus_class_consumes:
  assumes "st' \<in> set (matcher (Plus (Class P)) st)"
  shows "\<exists>w. fst st = w @ fst st' \<and> w \<noteq> [] \<and> list_all P w"
proof -
  have "st' \<in> set (concat (map (matcher (Star (Class P))) (matcher (Class P) st)))"
    using assms by (simp only: Plus_def matcher.simps)
  then obtain m where m: "m \<in> set (matcher (Class P) st)"
    "st' \<in> set (matcher (Star (Class P)) m)"
    by (simp only: set_concat set_map) blast
  from class_consumes [OF m(1)] obtain c where c: "fst st = c # fst m" "P c" by blast
  from star_class_consumes [OF m(2)] obtain w where "fst m = w @ fst st'" "list_all P w"
    by (auto simp: consumes_def)
  with c have "fst st = (c # w) @ fst st' \<and> c # w \<noteq> [] \<and> list_all P (c # w)" by simp
  then show ?thesis by blast
qed

lemma take_consumed: "s = w @ r \<Longrightarrow> take (length s - length r) s = w"
  by simp

lemma group_plus_class:
  "st' \<in> set (matcher (Plus (Class P)) st) \<Longrightarrow>
   (\<lambda>w. w \<noteq> [] \<and> list_all P w) (take (length (fst st) - length (fst st')) (fst st))"
  using plus_class_consumes [of st' P st] by (auto simp: take_consumed)

lemma group_class:
  "st' \<in> set (matcher (Class P) st) \<Longrightarrow>
   (\<lambda>w. \<exists>c. w = [c] \<and> P c) (take (length (fst st) - length (fst st')) (fst st))"
  using class_consumes [of st' P st] by auto

lemma group_ok_Str_i [simp]: "group_ok i Q (Str_i s)"
  by (induction s) (simp_all add: Str_i_def Chr_i_def)

lemma group_ok_Seqs [simp]: "group_ok i Q (Seqs rs) = list_all (group_ok i Q) rs"
  by (induction rs) (simp_all add: Seqs_def)

lemma group_ok_simple [simp]:
  "group_ok i Q (Chr_i c)" "group_ok i Q (Chr c)" "group_ok i Q quote_class"
  "group_ok i Q (Plus r) = group_ok i Q r"
  by (simp_all add: Chr_i_def Chr_def quote_class_def Plus_def)

lemma math_digits_ok:
  "group_ok 1 (\<lambda>w. w \<noteq> [] \<and> list_all is_digit w) mathRegex"
  "group_ok 3 (\<lambda>w. w \<noteq> [] \<and> list_all is_digit w) mathRegex"
  using group_plus_class [of _ is_digit] by (simp_all add: mathRegex_def)

lemma math_operator_ok:
  "group_ok 2 (\<lambda>w. \<exists>c. w = [c] \<and> (c = 43 \<or> c = 45 \<or> c = 42 \<or> c = 47)) mathRegex"
  using group_class [of _ "\<lambda>c. c = 43 \<or> c = 45 \<or> c = 42 \<or> c = 47"] by (simp add: mathRegex_def)

lemma letter_letter_ok:
  "group_ok 1 (\<lambda>w. \<exists>c. w = [c] \<and> is_letter c) letterCountRegex"
  using group_class [of _ is_letter] by (simp add: letterCountRegex_def)

lemma math_groups_content:
  assumes "match mathRegex 3 s = Some (w, [g0, Some num1, Some operator, Some num2])"
  shows "num1 \<noteq> [] \<and> list_all is_digit num1" and "num2 \<noteq> [] \<and> list_all is_digit num2"
    and "operator = js ''+'' \<or> operator = js ''-'' \<or> operator = js ''*'' \<or> operator = js ''/''"
proof -
  from match_SomeD [OF assms] obtain rest where
    ex: "regex_exec mathRegex 3 s = Some (w, rest, [g0, Some num1, Some operator, Some num2])" ..
  show "num1 \<noteq> [] \<and> list_all is_digit num1"
    using regex_exec_groups(3) [OF ex math_digits_ok(1), of num1] by simp
  show "num2 \<noteq> [] \<and> list_all is_digit num2"
    using regex_exec_groups(3) [OF ex math_digits_ok(2), of num2] by simp
  have "\<exists>c. operator = [c] \<and> (c = 43 \<or> c = 45 \<or> c = 42 \<or> c = 47)"
    using regex_exec_groups(3) [OF ex math_operator_ok, of operator] by simp
  then show "operator = js ''+'' \<or> operator = js ''-'' \<or> operator = js ''*'' \<or> operator = js ''/''"
    by (auto simp: js_def)
qed

lemma letter_group_content:
  assumes "match letterCountRegex 2 s = Some (w, [g0, Some letter, Some word])"
  shows "\<exists>c. letter = [c] \<and> is_letter c"
proof -
  from match_SomeD [OF assms] obtain rest where
    ex: "regex_exec letterCountRegex 2 s = Some (w, rest, [g0, Some letter, Some word])" ..
  show ?thesis using regex_exec_groups(3) [OF ex letter_letter_ok, of letter] by simp
qed

lemma digit_facts:
  assumes "is_digit c"
  shows "\<not> is_space c" "c \<noteq> 45" "c \<noteq> 43" "c \<noteq> 120" "c \<noteq> 88" "\<not> is_lower c" "\<not> is_upper c"
    "0 \<le> uint (c - 48)" "uint (c - 48) < 10"
  using assms unfolding is_digit_def is_space_def is_lower_def is_upper_def
  by (auto simp: word_le_def uint_sub_lem [THEN iffD1])

lemma char_digit_digit: "is_digit c \<Longrightarrow> char_digit c = digit_val c"
  by (simp add: char_digit_def digit_val_def)

lemma radix_digit_digit: "is_digit c \<Longrightarrow> radix_digit 10 c"
  using digit_facts(9) [of c] by (simp add: radix_digit_def char_digit_def digit_val_def)

lemma foldl_digits:
  "list_all is_digit ds \<Longrightarrow>
   foldl (\<lambda>acc c. 10 * acc + char_digit c) a ds = foldl (\<lambda>acc c. 10 * acc + digit_val c) a ds"
  by (induction ds arbitrary: a) (simp_all add: char_digit_digit)

lemma foldl_digits_nonneg:
  "0 \<le> a \<Longrightarrow> list_all is_digit ds \<Longrightarrow> 0 \<le> foldl (\<lambda>acc c. 10 * acc + digit_val c) a ds"
proof (induction ds arbitrary: a)
  case Nil
  then show ?case by simp
next
  case (Cons c ds)
  then have "0 \<le> 10 * a + digit_val c" using digit_facts(8) [of c] by (simp add: digit_val_def)
  with Cons show ?case by simp
qed

lemma digits_val_nonneg: "list_all is_digit ds \<Longrightarrow> 0 \<le> digits_val ds"
  unfolding digits_val_def by (rule foldl_digits_nonneg) simp_all

lemma parseInt_digits:
  assumes "ds \<noteq> []" "list_all is_digit ds"
  shows "parseInt ds = round64 (of_int (digits_val ds))"
proof -
  obtain c cs where ds: "ds = c # cs" using assms(1) by (cases ds) auto
  with assms(2) have c: "is_digit c" and cs: "list_all is_digit cs" by simp_all
  have trim: "trimStart ds = ds" using digit_facts(1) [OF c] by (simp add: trimStart_def ds)
  have nohex: "(case ds of a # b # _ \<Rightarrow> a = 48 \<and> (b = 120 \<or> b = 88) | _ \<Rightarrow> False) = False"
    using cs digit_facts(4,5) by (cases cs) (auto simp: ds)
  have tw: "takeWhile (radix_digit 10) ds = ds"
    using assms(2) radix_digit_digit by (simp add: takeWhile_eq_all_conv list_all_iff)
  have rv: "radix_val 10 ds = digits_val ds"
    unfolding radix_val_def digits_val_def using assms(2) by (rule foldl_digits)
  have hd: "hd ds \<noteq> 45" "hd ds \<noteq> 43" using digit_facts(2,3) [OF c] by (simp_all add: ds)
  show ?thesis
    unfolding parseInt_def trim Let_def
    using hd assms(1) by (simp add: nohex tw rv)
qed

lemma num_eq_round64:
  assumes "0 \<le> N" "n < 2 ^ 53"
  shows "num_eq (round64 (of_int N)) (Fin (of_nat n)) \<longleftrightarrow> N = int n"
proof (cases "N < 2 ^ 53")
  case True
  then have "round64 (of_int N) = Fin (of_int N)" using assms(1) by (intro round64_int) simp
  then show ?thesis by (auto simp: num_eq_def)
next
  case False
  then have "(2::rat) ^ 53 \<le> of_int N"
    by (metis (no_types) not_less of_int_le_iff of_int_numeral of_int_power)
  from round64_big [OF this] have "round64 (of_int N) = PInf \<or> (\<exists>v. round64 (of_int N) = Fin v \<and> 2 ^ 53 \<le> v)" .
  moreover have "(of_nat n :: rat) < 2 ^ 53" using assms(2)
    by (metis of_nat_less_iff of_nat_numeral of_nat_power)
  ultimately have "\<not> num_eq (round64 (of_int N)) (Fin (of_nat n))"
    by (auto simp: num_eq_def)
  moreover have "N \<noteq> int n" using False assms(2) by auto
  ultimately show ?thesis by simp
qed

section \<open>The arithmetic template\<close>

lemma operators_distinct:
  "js ''-'' \<noteq> js ''+''" "js ''*'' \<noteq> js ''+''" "js ''*'' \<noteq> js ''-''"
  "js ''/'' \<noteq> js ''+''" "js ''/'' \<noteq> js ''-''" "js ''/'' \<noteq> js ''*''"
  by (simp_all add: js_def)

lemma math_eval_nan: "math_eval NaN resp = Fin 0"
  by (auto simp: math_eval_def num_sub_def num_add_def num_abs_def num_less_def num_neg_def
      split: option.splits number.splits)

lemma lit_hundredth: "\<exists>t. lit (1 / 100) = Fin t"
proof -
  have "(0::rat) \<le> 1 / 100" "(1::rat) / 100 \<le> 1" by simp_all
  from round64_unit [OF this] show ?thesis by (auto simp: lit_def)
qed

lemma math_eval_inf: "math_eval PInf resp = Fin 0"
proof -
  obtain t where t: "lit (1 / 100) = Fin t" using lit_hundredth by blast
  have "\<not> num_less (num_abs (num_sub x PInf)) (Fin t)" for x
    by (cases x) (simp_all add: num_sub_def num_add_def num_abs_def num_less_def num_neg_def)
  then show ?thesis by (simp add: math_eval_def t split: option.splits)
qed

lemma math_eval_cases:
  "math_eval c resp =
     (if \<exists>n0 gs. match numberRegex 0 resp = Some (n0, gs)
            \<and> num_less (num_abs (num_sub (parseFloat n0) c)) (lit (1 / 100))
      then Fin 1 else Fin 0)"
  by (auto simp: math_eval_def split: option.splits)

text \<open>
  C3, as amended. For every prompt that matches the arithmetic template
  \<open>what is A op B\<close> and neither of the two templates tried before it, the groups
  \<open>A\<close> and \<open>B\<close> are digits, the classification is objective and the expected answer
  is the string of the number \<open>c\<close> that the operator gives on the two operands read by
  \<open>parseInt\<close>, in double arithmetic. When \<open>A\<close> and \<open>B\<close> are below \<open>2^53\<close>,
  \<open>c\<close> is the exact sum or product if that is below \<open>2^53\<close> too, the exact
  difference, the exact quotient if \<open>B\<close> divides \<open>A\<close>, and else the quotient rounded
  to the nearest double. The string of an integer \<open>c\<close> of magnitude below \<open>2^53\<close> is
  its decimal digits, after a minus sign when it is negative. The scoring closure returns 1 exactly when the pattern finds a
  number in the response and the distance between that number and \<open>c\<close>, computed in
  double arithmetic, is less than the double nearest to 0.01; else 0.
\<close>

theorem arithmetic_template:
  assumes "match letterCountRegex 2 prompt = None" and "match wordCountRegex 1 prompt = None"
    and "match mathRegex 3 prompt = Some (w, [g0, Some num1, Some operator, Some num2])"
  shows "num1 \<noteq> [] \<and> list_all is_digit num1 \<and> num2 \<noteq> [] \<and> list_all is_digit num2
    \<and> (\<exists>c. analyzePrompt prompt =
             Inr \<lparr>type = Objective, expectedAnswer = Some (Number_toString c),
                  evaluationFunction = Some (math_eval c)\<rparr>
          \<and> (operator = js ''+'' \<longrightarrow> c = num_add (parseInt num1) (parseInt num2))
          \<and> (operator = js ''-'' \<longrightarrow> c = num_sub (parseInt num1) (parseInt num2))
          \<and> (operator = js ''*'' \<longrightarrow> c = num_mul (parseInt num1) (parseInt num2))
          \<and> (operator = js ''/'' \<longrightarrow> c = num_div (parseInt num1) (parseInt num2))
          \<and> (digits_val num1 < 2 ^ 53 \<and> digits_val num2 < 2 ^ 53 \<longrightarrow>
                (operator = js ''+'' \<and> digits_val num1 + digits_val num2 < 2 ^ 53 \<longrightarrow>
                   c = Fin (of_int (digits_val num1 + digits_val num2)))
              \<and> (operator = js ''-'' \<longrightarrow> c = Fin (of_int (digits_val num1 - digits_val num2)))
              \<and> (operator = js ''*'' \<and> digits_val num1 * digits_val num2 < 2 ^ 53 \<longrightarrow>
                   c = Fin (of_int (digits_val num1 * digits_val num2)))
              \<and> (operator = js ''/'' \<and> digits_val num2 \<noteq> 0 \<longrightarrow>
                   c = round64 (of_int (digits_val num1) / of_int (digits_val num2)))
              \<and> (operator = js ''/'' \<and> digits_val num2 \<noteq> 0 \<and> digits_val num2 dvd digits_val num1 \<longrightarrow>
                   c = Fin (of_int (digits_val num1 div digits_val num2))))
          \<and> (\<forall>n. \<bar>n\<bar> < 2 ^ 53 \<and> c = Fin (of_int n) \<longrightarrow>
                Number_toString c = (if n < 0 then [45] @ dec (- n) else dec n))
          \<and> (\<forall>resp. math_eval c resp =
                (if \<exists>n0 gs. match numberRegex 0 resp = Some (n0, gs)
                       \<and> num_less (num_abs (num_sub (parseFloat n0) c)) (lit (1 / 100))
                 then Fin 1 else Fin 0)))"
proof -
  note g = math_groups_content [OF assms(3)]
  define A where "A = digits_val num1"
  define B where "B = digits_val num2"
  have A0: "0 \<le> A" and B0: "0 \<le> B" using g digits_val_nonneg by (simp_all add: A_def B_def)
  have p1: "parseInt num1 = round64 (of_int A)" using g parseInt_digits by (simp add: A_def)
  have p2: "parseInt num2 = round64 (of_int B)" using g parseInt_digits by (simp add: B_def)
  define c where "c =
    (if operator = js ''+'' then num_add (parseInt num1) (parseInt num2)
     else if operator = js ''-'' then num_sub (parseInt num1) (parseInt num2)
     else if operator = js ''*'' then num_mul (parseInt num1) (parseInt num2)
     else if operator = js ''/'' then num_div (parseInt num1) (parseInt num2)
     else Fin 0)"
  have an: "analyzePrompt prompt =
      Inr \<lparr>type = Objective, expectedAnswer = Some (Number_toString c),
           evaluationFunction = Some (math_eval c)\<rparr>"
    unfolding analyzePrompt_def using assms by (simp add: c_def Let_def)
  have ops: "operator = js ''+'' \<longrightarrow> c = num_add (parseInt num1) (parseInt num2)"
    "operator = js ''-'' \<longrightarrow> c = num_sub (parseInt num1) (parseInt num2)"
    "operator = js ''*'' \<longrightarrow> c = num_mul (parseInt num1) (parseInt num2)"
    "operator = js ''/'' \<longrightarrow> c = num_div (parseInt num1) (parseInt num2)"
    by (simp_all add: c_def operators_distinct)
  have exact: "(operator = js ''+'' \<and> A + B < 2 ^ 53 \<longrightarrow> c = Fin (of_int (A + B)))
      \<and> (operator = js ''-'' \<longrightarrow> c = Fin (of_int (A - B)))
      \<and> (operator = js ''*'' \<and> A * B < 2 ^ 53 \<longrightarrow> c = Fin (of_int (A * B)))
      \<and> (operator = js ''/'' \<and> B \<noteq> 0 \<longrightarrow> c = round64 (of_int A / of_int B))
      \<and> (operator = js ''/'' \<and> B \<noteq> 0 \<and> B dvd A \<longrightarrow> c = Fin (of_int (A div B)))"
    if small: "A < 2 ^ 53 \<and> B < 2 ^ 53"
  proof -
    have rA: "round64 (of_int A) = Fin (of_int A)" and rB: "round64 (of_int B) = Fin (of_int B)"
      using small A0 B0 by (simp_all add: round64_int)
    have add: "A + B < 2 ^ 53 \<Longrightarrow> round64 (of_int A + of_int B) = Fin (of_int (A + B))"
      using A0 B0 round64_int [of "A + B"] by simp
    have "\<bar>A - B\<bar> < 2 ^ 53" using A0 B0 small by linarith
    then have sub: "round64 (of_int A - of_int B) = Fin (of_int (A - B))"
      using round64_int [of "A - B"] by simp
    have mul: "A * B < 2 ^ 53 \<Longrightarrow> round64 (of_int A * of_int B) = Fin (of_int (A * B))"
      using A0 B0 round64_int [of "A * B"] by simp
    have dv: "B \<noteq> 0 \<Longrightarrow> B dvd A \<Longrightarrow> round64 (of_int A / of_int B) = Fin (of_int (A div B))"
    proof -
      assume b: "B \<noteq> 0" "B dvd A"
      then have q: "(of_int A :: rat) / of_int B = of_int (A div B)" by auto
      have "0 \<le> A div B" using A0 B0 by (simp add: pos_imp_zdiv_nonneg_iff div_int_pos_iff)
      moreover have "A div B \<le> A" using A0 B0 b(1)
        by (metis div_by_1 int_one_le_iff_zero_less order_le_less zdiv_mono2)
      ultimately have "\<bar>A div B\<bar> < 2 ^ 53" using small by simp
      then show ?thesis unfolding q by (rule round64_int)
    qed
    show ?thesis
      using add sub mul dv
      by (simp add: c_def operators_distinct p1 p2 rA rB num_add_def num_sub_def num_neg_def
          num_mul_def num_div_def)
  qed
  have ts: "\<forall>n. \<bar>n\<bar> < 2 ^ 53 \<and> c = Fin (of_int n) \<longrightarrow>
      Number_toString c = (if n < 0 then [45] @ dec (- n) else dec n)"
    using Number_toString_int by blast
  show ?thesis
    using g an ops exact ts math_eval_cases [of c]
    unfolding A_def B_def by blast
qed

text \<open>
  C10, as amended. For every prompt that matches the arithmetic template with the
  operator \<open>/\<close> and a divisor that reads as 0, and neither of the two templates tried
  before it, \<open>analyzePrompt\<close> does not throw: it returns an objective classification
  whose expected answer is the string \<open>Infinity\<close>, or \<open>NaN\<close> when the dividend reads
  as 0, and whose scoring closure returns 0 for every response.
\<close>

theorem division_by_zero:
  assumes "match letterCountRegex 2 prompt = None" and "match wordCountRegex 1 prompt = None"
    and "match mathRegex 3 prompt = Some (w, [g0, Some num1, Some (js ''/''), Some num2])"
    and "parseInt num2 = Fin 0"
  shows "analyzePrompt prompt =
      Inr \<lparr>type = Objective,
           expectedAnswer = Some (if parseInt num1 = Fin 0 then js ''NaN'' else js ''Infinity''),
           evaluationFunction = Some (math_eval (if parseInt num1 = Fin 0 then NaN else PInf))\<rparr>
    \<and> (\<forall>resp. math_eval (if parseInt num1 = Fin 0 then NaN else PInf) resp = Fin 0)"
proof -
  note g = math_groups_content [OF assms(3)]
  have "0 \<le> (of_int (digits_val num1) :: rat)" using g digits_val_nonneg by simp
  from round64_nonneg [OF this]
  have p1: "parseInt num1 = PInf \<or> (\<exists>v. parseInt num1 = Fin v \<and> 0 \<le> v)"
    using g parseInt_digits by simp
  have q: "num_div (parseInt num1) (parseInt num2) = (if parseInt num1 = Fin 0 then NaN else PInf)"
    using p1 by (auto simp: assms(4) num_div_def signed_inf_def num_sgn_def)
  have an: "analyzePrompt prompt =
      Inr \<lparr>type = Objective,
           expectedAnswer = Some (Number_toString (num_div (parseInt num1) (parseInt num2))),
           evaluationFunction = Some (math_eval (num_div (parseInt num1) (parseInt num2)))\<rparr>"
    unfolding analyzePrompt_def using assms(1-3) by (simp add: Let_def operators_distinct)
  have ts: "Number_toString (if parseInt num1 = Fin 0 then NaN else PInf)
      = (if parseInt num1 = Fin 0 then js ''NaN'' else js ''Infinity'')"
    by (simp add: Number_toString_def)
  show ?thesis
    using an unfolding q ts by (simp add: math_eval_nan math_eval_inf)
qed

lemma sum_letter: "match letterCountRegex 2 (js ''what is 12 + 5'') = None"
  by code_simp
lemma sum_word: "match wordCountRegex 1 (js ''what is 12 + 5'') = None"
  by code_simp
lemma sum_math: "match mathRegex 3 (js ''what is 12 + 5'') =
    Some (js ''what is 12 + 5'', [None, Some (js ''12''), Some (js ''+''), Some (js ''5'')])"
  by code_simp
lemma sum_digits: "digits_val (js ''12'') = 12" "digits_val (js ''5'') = 5"
  by code_simp+
lemma sum_string: "Number_toString (Fin 17) = js ''17''"
  by code_simp
lemma sum_eval: "math_eval (Fin 17) (js ''The answer is 17.'') = Fin 1" "math_eval (Fin 17) (js ''18'') = Fin 0"
  by code_simp+

lemma nested_letter: "match letterCountRegex 2 (js ''how many words are in what is 1+1'') = None"
  by code_simp
lemma nested_word: "match wordCountRegex 1 (js ''how many words are in what is 1+1'') =
    Some (js ''how many words are in what is 1+1'', [None, Some (js ''what is 1+1'')])"
  by code_simp
lemma nested_math: "match mathRegex 3 (js ''how many words are in what is 1+1'') =
    Some (js ''what is 1+1'', [None, Some (js ''1''), Some (js ''+''), Some (js ''1'')])"
  by code_simp
lemma nested_count: "array_length (split (Plus (Class is_space)) (trim (js ''what is 1+1''))) = Fin 3"
  by code_simp
lemma three_string: "Number_toString (Fin 3) = js ''3''"
  by code_simp

lemma big_letter: "match letterCountRegex 2 (js ''what is 9007199254740993 + 0'') = None"
  by code_simp
lemma big_word: "match wordCountRegex 1 (js ''what is 9007199254740993 + 0'') = None"
  by code_simp
lemma big_math: "match mathRegex 3 (js ''what is 9007199254740993 + 0'') =
    Some (js ''what is 9007199254740993 + 0'', [None, Some (js ''9007199254740993''), Some (js ''+''), Some (js ''0'')])"
  by code_simp
lemma big_sum: "num_add (parseInt (js ''9007199254740993'')) (parseInt (js ''0'')) = Fin 9007199254740992"
  by code_simp
lemma big_eval: "math_eval (Fin 9007199254740992) (js ''9007199254740992'') = Fin 1"
  by code_simp
lemma big_string: "Number_toString (Fin 9007199254740992) = js ''9007199254740992''"
  by code_simp

theorem arithmetic_template_witness:
  "match letterCountRegex 2 (js ''what is 12 + 5'') = None
   \<and> match wordCountRegex 1 (js ''what is 12 + 5'') = None
   \<and> match mathRegex 3 (js ''what is 12 + 5'') =
       Some (js ''what is 12 + 5'', [None, Some (js ''12''), Some (js ''+''), Some (js ''5'')])
   \<and> analyzePrompt (js ''what is 12 + 5'') =
       Inr \<lparr>type = Objective, expectedAnswer = Some (js ''17''),
            evaluationFunction = Some (math_eval (Fin 17))\<rparr>
   \<and> math_eval (Fin 17) (js ''The answer is 17.'') = Fin 1
   \<and> math_eval (Fin 17) (js ''18'') = Fin 0"
proof -
  from arithmetic_template [OF sum_letter sum_word sum_math]
  obtain c where an: "analyzePrompt (js ''what is 12 + 5'') =
       Inr \<lparr>type = Objective, expectedAnswer = Some (Number_toString c),
            evaluationFunction = Some (math_eval c)\<rparr>"
    and ex: "digits_val (js ''12'') < 2 ^ 53 \<and> digits_val (js ''5'') < 2 ^ 53 \<longrightarrow>
       (js ''+'' = js ''+'' \<and> digits_val (js ''12'') + digits_val (js ''5'') < 2 ^ 53 \<longrightarrow>
          c = Fin (of_int (digits_val (js ''12'') + digits_val (js ''5''))))
       \<and> (js ''+'' = js ''-'' \<longrightarrow> c = Fin (of_int (digits_val (js ''12'') - digits_val (js ''5''))))
       \<and> (js ''+'' = js ''*'' \<and> digits_val (js ''12'') * digits_val (js ''5'') < 2 ^ 53 \<longrightarrow>
             c = Fin (of_int (digits_val (js ''12'') * digits_val (js ''5''))))
       \<and> (js ''+'' = js ''/'' \<and> digits_val (js ''5'') \<noteq> 0 \<longrightarrow>
             c = round64 (of_int (digits_val (js ''12'')) / of_int (digits_val (js ''5''))))
       \<and> (js ''+'' = js ''/'' \<and> digits_val (js ''5'') \<noteq> 0 \<and> digits_val (js ''5'') dvd digits_val (js ''12'') \<longrightarrow>
             c = Fin (of_int (digits_val (js ''12'') div digits_val (js ''5''))))"
    by blast
  from ex have "c = Fin 17" by (simp add: sum_digits)
  with an sum_letter sum_word sum_math sum_string sum_eval show ?thesis by simp
qed

text \<open>
  The claim as stated fails in two ways. A prompt that matches the arithmetic template
  and the word-count template is classified as a word count: the expected answer below
  is 3, not 2. And an operand from \<open>2^53\<close> on is rounded: the expected answer below is
  9007199254740992, one less than the exact sum, and the response 9007199254740992
  scores 1.
\<close>

theorem arithmetic_template_counterexample:
  "match mathRegex 3 (js ''how many words are in what is 1+1'') =
       Some (js ''what is 1+1'', [None, Some (js ''1''), Some (js ''+''), Some (js ''1'')])
   \<and> analyzePrompt (js ''how many words are in what is 1+1'') =
       Inr \<lparr>type = Objective, expectedAnswer = Some (js ''3''),
            evaluationFunction = Some (count_eval (Fin 3))\<rparr>
   \<and> match mathRegex 3 (js ''what is 9007199254740993 + 0'') =
       Some (js ''what is 9007199254740993 + 0'',
             [None, Some (js ''9007199254740993''), Some (js ''+''), Some (js ''0'')])
   \<and> analyzePrompt (js ''what is 9007199254740993 + 0'') =
       Inr \<lparr>type = Objective, expectedAnswer = Some (js ''9007199254740992''),
            evaluationFunction = Some (math_eval (Fin 9007199254740992))\<rparr>
   \<and> math_eval (Fin 9007199254740992) (js ''9007199254740992'') = Fin 1"
proof -
  have a: "analyzePrompt (js ''how many words are in what is 1+1'') =
       Inr \<lparr>type = Objective, expectedAnswer = Some (js ''3''),
            evaluationFunction = Some (count_eval (Fin 3))\<rparr>"
    unfolding analyzePrompt_def nested_letter nested_word
    by (simp add: nested_count three_string)
  have b: "analyzePrompt (js ''what is 9007199254740993 + 0'') =
       Inr \<lparr>type = Objective, expectedAnswer = Some (js ''9007199254740992''),
            evaluationFunction = Some (math_eval (Fin 9007199254740992))\<rparr>"
    unfolding analyzePrompt_def big_letter big_word big_math
    by (simp add: big_sum big_string Let_def)
  from a b nested_math big_math big_eval show ?thesis by simp
qed

lemma zero_letter: "match letterCountRegex 2 (js ''what is 7 / 0'') = None"
  by code_simp
lemma zero_word: "match wordCountRegex 1 (js ''what is 7 / 0'') = None"
  by code_simp
lemma zero_math: "match mathRegex 3 (js ''what is 7 / 0'') =
    Some (js ''what is 7 / 0'', [None, Some (js ''7''), Some (js ''/''), Some (js ''0'')])"
  by code_simp
lemma zero_parse: "parseInt (js ''0'') = Fin 0" "parseInt (js ''7'') = Fin 7"
  by code_simp+

theorem division_by_zero_witness:
  "match letterCountRegex 2 (js ''what is 7 / 0'') = None
   \<and> match wordCountRegex 1 (js ''what is 7 / 0'') = None
   \<and> match mathRegex 3 (js ''what is 7 / 0'') =
       Some (js ''what is 7 / 0'', [None, Some (js ''7''), Some (js ''/''), Some (js ''0'')])
   \<and> parseInt (js ''0'') = Fin 0
   \<and> analyzePrompt (js ''what is 7 / 0'') =
       Inr \<lparr>type = Objective, expectedAnswer = Some (js ''Infinity''),
            evaluationFunction = Some (math_eval PInf)\<rparr>
   \<and> math_eval PInf (js ''42'') = Fin 0"
  using division_by_zero [OF zero_letter zero_word zero_math zero_parse(1)]
    zero_letter zero_word zero_math zero_parse
  by simp

lemma nested_zero_letter: "match letterCountRegex 2 (js ''how many words are in what is 1/0'') = None"
  by code_simp
lemma nested_zero_word: "match wordCountRegex 1 (js ''how many words are in what is 1/0'') =
    Some (js ''how many words are in what is 1/0'', [None, Some (js ''what is 1/0'')])"
  by code_simp
lemma nested_zero_math: "match mathRegex 3 (js ''how many words are in what is 1/0'') =
    Some (js ''what is 1/0'', [None, Some (js ''1''), Some (js ''/''), Some (js ''0'')])"
  by code_simp
lemma nested_zero_count: "array_length (split (Plus (Class is_space)) (trim (js ''what is 1/0''))) = Fin 3"
  by code_simp

text \<open>
  The claim as stated fails on a prompt that matches the word-count template too: it is
  classified as a word count, with the expected answer 3.
\<close>

theorem division_by_zero_counterexample:
  "match mathRegex 3 (js ''how many words are in what is 1/0'') =
       Some (js ''what is 1/0'', [None, Some (js ''1''), Some (js ''/''), Some (js ''0'')])
   \<and> parseInt (js ''0'') = Fin 0
   \<and> analyzePrompt (js ''how many words are in what is 1/0'') =
       Inr \<lparr>type = Objective, expectedAnswer = Some (js ''3''),
            evaluationFunction = Some (count_eval (Fin 3))\<rparr>"
proof -
  have "analyzePrompt (js ''how many words are in what is 1/0'') =
       Inr \<lparr>type = Objective, expectedAnswer = Some (js ''3''),
            evaluationFunction = Some (count_eval (Fin 3))\<rparr>"
    unfolding analyzePrompt_def nested_zero_letter nested_zero_word
    by (simp add: nested_zero_count three_string)
  with nested_zero_math zero_parse(1) show ?thesis by simp
qed


section \<open>The counting templates\<close>

lemma star_class_hd:
  "length s \<le> n \<Longrightarrow> \<exists>rs. star_iter (matcher (Class P)) n (s, c) = (dropWhile P s, c) # rs"
proof (induction s arbitrary: n)
  case Nil
  then show ?case by (cases n) simp_all
next
  case (Cons x r)
  then obtain k where k: "n = Suc k" "length r \<le> k" by (cases n) auto
  define f where "f = matcher (Class P)"
  from Cons.IH [OF k(2)] obtain rs where
    ih: "star_iter f k (r, c) = (dropWhile P r, c) # rs" unfolding f_def ..
  have step: "f (x # r, c) = (if P x then [(r, c)] else [])" by (simp add: f_def)
  have "star_iter f (Suc k) (x # r, c) =
      (if P x then (dropWhile P (x # r), c) # (rs @ [(x # r, c)]) else [(dropWhile P (x # r), c)])"
    by (simp add: step ih)
  then show ?case
    unfolding k f_def by (cases "P x") (simp_all del: matcher.simps star_iter.simps)
qed

lemma matcher_plus_class:
  "\<exists>rs. matcher (Plus (Class P)) (s, c) =
     (case s of [] \<Rightarrow> [] | x # r \<Rightarrow> if P x then (dropWhile P r, c) # rs else [])"
proof (cases s)
  case Nil
  then show ?thesis by (simp add: Plus_def)
next
  case (Cons x r)
  from star_class_hd [of r "length r" P c] obtain rs where
    "star_iter (matcher (Class P)) (length r) (r, c) = (dropWhile P r, c) # rs" by blast
  with Cons show ?thesis by (simp add: Plus_def)
qed

lemma take_run: "take (Suc (length r) - length (dropWhile P r)) (x # r) = x # takeWhile P r"
proof -
  have "x # r = (x # takeWhile P r) @ dropWhile P r" by simp
  from take_consumed [OF this] show ?thesis by simp
qed

lemma regex_exec_plus_class:
  "regex_exec (Plus (Class P)) n s =
     (let t = dropWhile (\<lambda>c. \<not> P c) s
      in if t = [] then None else Some (takeWhile P t, dropWhile P t, replicate (Suc n) None))"
proof (induction s)
  case Nil
  have "matcher (Plus (Class P)) ([], replicate (Suc n) None) = []"
    using matcher_plus_class [of P "[]"] by simp
  then show ?case by (subst regex_exec.simps) simp
next
  case (Cons x r)
  from matcher_plus_class [of P "x # r" "replicate (Suc n) None"] obtain rs where
    m: "matcher (Plus (Class P)) (x # r, replicate (Suc n) None) =
      (if P x then (dropWhile P r, replicate (Suc n) None) # rs else [])" by auto
  show ?case
  proof (cases "P x")
    case True
    with m show ?thesis
      by (subst regex_exec.simps) (simp add: take_run del: replicate_Suc)
  next
    case False
    with m Cons.IH show ?thesis
      by (subst regex_exec.simps) (simp del: replicate_Suc)
  qed
qed

lemma match_digitsRegex:
  "match digitsRegex 0 s =
     (let t = dropWhile (\<lambda>c. \<not> is_digit c) s
      in if t = [] then None else Some (takeWhile is_digit t, [None]))"
  by (simp add: match_def digitsRegex_def regex_exec_plus_class Let_def)

lemma count_eval_first_integer:
  assumes "n < 2 ^ 53"
  shows "count_eval (Fin (of_nat n)) resp =
     (if first_integer resp = Some (int n) then Fin 1 else Fin 0)"
proof (cases "dropWhile (\<lambda>c. \<not> is_digit c) resp = []")
  case True
  then show ?thesis by (simp add: count_eval_def match_digitsRegex first_integer_def)
next
  case False
  define t where "t = dropWhile (\<lambda>c. \<not> is_digit c) resp"
  have t: "t \<noteq> []" using False by (simp add: t_def)
  have "is_digit (hd t)" using hd_dropWhile [of "\<lambda>c. \<not> is_digit c" resp] False
    by (simp add: t_def)
  then have run: "takeWhile is_digit t \<noteq> []" using t by (cases t) simp_all
  have all: "list_all is_digit (takeWhile is_digit t)"
    by (simp add: list_all_iff) (meson set_takeWhileD)
  have p: "parseInt (takeWhile is_digit t) = round64 (of_int (digits_val (takeWhile is_digit t)))"
    using run all by (rule parseInt_digits)
  have "num_eq (parseInt (takeWhile is_digit t)) (Fin (of_nat n))
      \<longleftrightarrow> digits_val (takeWhile is_digit t) = int n"
    unfolding p using digits_val_nonneg [OF all] assms by (rule num_eq_round64)
  then show ?thesis
    using t by (simp add: count_eval_def match_digitsRegex first_integer_def t_def [symmetric] Let_def)
qed

lemma matcher_char:
  "matcher (Seq (Chr a) Eps) (s, c) =
     (case s of [] \<Rightarrow> [] | x # r \<Rightarrow> if x = a then [(r, c)] else [])"
  by (cases s) (simp_all add: Chr_def)

lemma regex_exec_char:
  "regex_exec (Seq (Chr a) Eps) n s =
     (case dropWhile (\<lambda>x. x \<noteq> a) s of
        [] \<Rightarrow> None
      | x # r \<Rightarrow> Some ([a], r, replicate (Suc n) None))"
proof (induction s)
  case Nil
  show ?case by (subst regex_exec.simps) (simp add: matcher_char del: replicate_Suc matcher.simps)
next
  case (Cons x r)
  then show ?case
    by (subst regex_exec.simps) (simp add: matcher_char del: replicate_Suc matcher.simps)
qed

lemma match_all_iter_char:
  "length s < k \<Longrightarrow>
   match_all_iter (Seq (Chr a) Eps) k s = replicate (length (filter (\<lambda>x. x = a) s)) [a]"
proof (induction k arbitrary: s)
  case 0
  then show ?case by simp
next
  case (Suc k)
  show ?case
  proof (cases "dropWhile (\<lambda>x. x \<noteq> a) s")
    case Nil
    then have "\<forall>x\<in>set s. x \<noteq> a" by (simp add: dropWhile_eq_Nil_conv)
    then have "filter (\<lambda>x. x = a) s = []" by (simp add: filter_empty_conv)
    moreover have "regex_exec (Seq (Chr a) Eps) 0 s = None"
      unfolding regex_exec_char Nil by simp
    ultimately show ?thesis by simp
  next
    case (Cons x r)
    then have x: "x = a" using hd_dropWhile [of "\<lambda>x. x \<noteq> a" s] by force
    have split: "s = takeWhile (\<lambda>x. x \<noteq> a) s @ a # r"
      using Cons x by (metis takeWhile_dropWhile_id)
    have "length s = length (takeWhile (\<lambda>x. x \<noteq> a) s) + Suc (length r)"
      using arg_cong [OF split, of length] by simp
    then have "length r < length s" by simp
    with Suc.prems have "length r < k" by simp
    from Suc.IH [OF this] have ih:
      "match_all_iter (Seq (Chr a) Eps) k r = replicate (length (filter (\<lambda>x. x = a) r)) [a]" .
    have none: "filter (\<lambda>x. x = a) (takeWhile (\<lambda>x. x \<noteq> a) s) = []"
      by (auto simp: filter_empty_conv dest: set_takeWhileD)
    have "filter (\<lambda>x. x = a) s = a # filter (\<lambda>x. x = a) r"
      by (subst split) (simp add: none)
    moreover have "regex_exec (Seq (Chr a) Eps) 0 s = Some ([a], r, replicate (Suc 0) None)"
      unfolding regex_exec_char Cons by simp
    ultimately show ?thesis using ih by simp
  qed
qed

lemma match_all_letter:
  "array_length (match_all (RegExp (toLowerCase [c])) (toLowerCase word)) =
     Fin (of_nat (count_ci [c] word))"
proof -
  have "length (filter (\<lambda>x. x = lower_char c) (map lower_char word))
      = length (filter (\<lambda>x. lower_char x = lower_char c) word)"
    by (simp add: filter_map comp_def)
  then show ?thesis
    by (simp add: array_length_def match_all_def RegExp_def toLowerCase_def match_all_iter_char
        count_ci_def del: match_all_iter.simps)
qed

lemma count_ci_le: "count_ci letter word \<le> length word"
  by (simp add: count_ci_def)

lemma space_runs_skip: "space_runs True cs = space_runs b (dropWhile is_space cs)"
  by (induction cs) simp_all

lemma matcher_spaces:
  "\<exists>rs. matcher (Plus (Class is_space)) (x # r, c) =
     (if is_space x then (dropWhile is_space r, c) # rs else [])"
  using matcher_plus_class [of is_space "x # r" c] by simp

lemma split_iter_spaces:
  "length rest \<le> k \<Longrightarrow>
   length (split_iter (Plus (Class is_space)) k piece rest) = Suc (space_runs False rest)"
proof (induction k arbitrary: piece rest)
  case 0
  then show ?case by simp
next
  case (Suc k)
  show ?case
  proof (cases rest)
    case Nil
    then show ?thesis by simp
  next
    case (Cons x r)
    from matcher_spaces [of x r "[]"] obtain rs where
      m: "matcher (Plus (Class is_space)) (x # r, []) =
        (if is_space x then (dropWhile is_space r, []) # rs else [])" ..
    have len: "length r \<le> k" using Suc.prems Cons by simp
    show ?thesis
    proof (cases "is_space x")
      case True
      have shorter: "length (dropWhile is_space r) \<noteq> length (x # r)"
        using length_dropWhile_le [of is_space r] by simp
      have "length (dropWhile is_space r) \<le> k"
        using length_dropWhile_le [of is_space r] len by simp
      from Suc.IH [OF this, of "[]"] have ih:
        "length (split_iter (Plus (Class is_space)) k [] (dropWhile is_space r))
          = Suc (space_runs False (dropWhile is_space r))" .
      have "split_iter (Plus (Class is_space)) (Suc k) piece (x # r) =
          piece # split_iter (Plus (Class is_space)) k [] (dropWhile is_space r)"
        using True m shorter by (simp del: matcher.simps)
      with ih True show ?thesis
        unfolding Cons using space_runs_skip [of r False] by simp
    next
      case False
      have "split_iter (Plus (Class is_space)) (Suc k) piece (x # r) =
          split_iter (Plus (Class is_space)) k (piece @ [x]) r"
        using False m by (simp del: matcher.simps)
      with Suc.IH [OF len, of "piece @ [x]"] False show ?thesis unfolding Cons by simp
    qed
  qed
qed

lemma length_split_spaces:
  "s \<noteq> [] \<Longrightarrow> length (split (Plus (Class is_space)) s) = Suc (space_runs False s)"
  by (simp add: split_def split_iter_spaces del: split_iter.simps)

lemma words_runs:
  "ends_in_word u \<Longrightarrow>
   word_starts True u = space_runs False u
   \<and> word_starts False u = space_runs True u + (if u = [] then 0 else 1)"
proof (induction u)
  case Nil
  then show ?case by simp
next
  case (Cons c cs)
  show ?case
  proof (cases "cs = []")
    case True
    with Cons.prems show ?thesis by (simp add: ends_in_word_def)
  next
    case False
    with Cons.prems have "ends_in_word cs" by (simp add: ends_in_word_def)
    from Cons.IH [OF this] False show ?thesis by simp
  qed
qed

lemma word_starts_skip: "word_starts False (dropWhile is_space s) = word_starts False s"
  by (induction s) simp_all

lemma word_starts_spaces: "list_all is_space v \<Longrightarrow> word_starts b v = 0"
  by (induction v arbitrary: b) simp_all

lemma word_starts_append: "list_all is_space v \<Longrightarrow> word_starts b (u @ v) = word_starts b u"
  by (induction u arbitrary: b) (simp_all add: word_starts_spaces)

lemma trim_split:
  "dropWhile is_space s = trim s @ rev (takeWhile is_space (rev (dropWhile is_space s)))"
proof -
  have "rev (takeWhile is_space (rev (dropWhile is_space s))
      @ dropWhile is_space (rev (dropWhile is_space s))) = dropWhile is_space s"
    by (simp only: takeWhile_dropWhile_id rev_rev_ident)
  then show ?thesis by (simp only: rev_append trim_def)
qed

lemma word_count_trim: "word_starts False (trim s) = word_count s"
proof -
  have "list_all is_space (rev (takeWhile is_space (rev (dropWhile is_space s))))"
    by (auto simp: list_all_iff dest: set_takeWhileD)
  from word_starts_append [OF this, of False "trim s"]
  have "word_starts False (dropWhile is_space s) = word_starts False (trim s)"
    by (simp only: trim_split [symmetric])
  then show ?thesis by (simp add: word_count_def word_starts_skip)
qed

lemma trim_shape:
  assumes "\<not> list_all is_space s"
  shows "trim s \<noteq> []" and "\<not> is_space (hd (trim s))" and "ends_in_word (trim s)"
proof -
  define t where "t = dropWhile is_space s"
  have t: "t \<noteq> []" using assms by (simp add: t_def list_all_iff)
  have ht: "\<not> is_space (hd t)" using hd_dropWhile [of is_space s] t by (simp add: t_def)
  define y where "y = dropWhile is_space (rev t)"
  have "hd t \<in> set (rev t)" using t by simp
  with ht have y: "y \<noteq> []" by (auto simp: y_def)
  have hy: "\<not> is_space (hd y)" using hd_dropWhile [of is_space "rev t"] y by (simp add: y_def)
  have ly: "last y = hd t"
  proof -
    have "last y = last (rev t)" using y unfolding y_def by (metis last_appendR takeWhile_dropWhile_id)
    then show ?thesis using t by (simp add: last_rev)
  qed
  have tr: "trim s = rev y" by (simp add: trim_def y_def t_def)
  show "trim s \<noteq> []" using y by (simp add: tr)
  show "\<not> is_space (hd (trim s))" using ht ly y by (simp add: tr hd_rev)
  show "ends_in_word (trim s)" using hy y by (simp add: tr ends_in_word_def last_rev)
qed

lemma split_word_count:
  assumes "\<not> list_all is_space phrase"
  shows "array_length (split (Plus (Class is_space)) (trim phrase)) = Fin (of_nat (word_count phrase))"
proof -
  note sh = trim_shape [OF assms]
  obtain c cs where t: "trim phrase = c # cs" using sh(1) by (cases "trim phrase") auto
  have c: "\<not> is_space c" using sh(2) by (simp add: t)
  have "ends_in_word cs" using sh(3) by (auto simp: t ends_in_word_def split: if_splits)
  from words_runs [OF this] have "word_starts True cs = space_runs False cs" ..
  then have "word_starts False (c # cs) = Suc (space_runs False (c # cs))" using c by simp
  then have "word_count phrase = Suc (space_runs False (trim phrase))"
    using word_count_trim [of phrase] by (simp add: t)
  then show ?thesis
    using sh(1) by (simp add: array_length_def length_split_spaces)
qed

lemma word_count_le: "word_starts b s \<le> length s"
proof (induction s arbitrary: b)
  case Nil
  then show ?case by simp
next
  case (Cons c cs)
  have "word_starts True cs \<le> length cs" "word_starts False cs \<le> length cs"
    using Cons.IH by simp_all
  then show ?case by simp
qed

text \<open>
  C4, as amended. For every prompt that matches the letter-count template, the expected
  answer is the decimal digits of the number of characters of the asked word that are the
  asked letter up to case. For every prompt that matches the word-count template and not
  the letter-count template, which is tried first, and whose asked phrase is not blank, the
  expected answer is the decimal digits of the number of words of the phrase. In both cases the
  scoring closure returns 1 exactly when the first run of digits of the response has that
  count as its value, and 0 otherwise, also when the response has no digit. (The word and
  the phrase are shorter than \<open>2^32\<close> code units, as every string of an engine is.)
\<close>

theorem counting_templates:
  "(\<forall>w g0 letter word.
      match letterCountRegex 2 prompt = Some (w, [g0, Some letter, Some word])
      \<and> length word < 2 ^ 32 \<longrightarrow>
        analyzePrompt prompt =
          Inr \<lparr>type = Objective,
               expectedAnswer = Some (dec (int (count_ci letter word))),
               evaluationFunction = Some (count_eval (Fin (of_nat (count_ci letter word))))\<rparr>
        \<and> (\<forall>resp. count_eval (Fin (of_nat (count_ci letter word))) resp =
              (if first_integer resp = Some (int (count_ci letter word)) then Fin 1 else Fin 0)))
   \<and> (\<forall>w g0 phrase.
      match letterCountRegex 2 prompt = None
      \<and> match wordCountRegex 1 prompt = Some (w, [g0, Some phrase])
      \<and> \<not> list_all is_space phrase \<and> length phrase < 2 ^ 32 \<longrightarrow>
        analyzePrompt prompt =
          Inr \<lparr>type = Objective,
               expectedAnswer = Some (dec (int (word_count phrase))),
               evaluationFunction = Some (count_eval (Fin (of_nat (word_count phrase))))\<rparr>
        \<and> (\<forall>resp. count_eval (Fin (of_nat (word_count phrase))) resp =
              (if first_integer resp = Some (int (word_count phrase)) then Fin 1 else Fin 0)))"
proof (intro conjI allI impI)
  fix w g0 letter word
  assume a: "match letterCountRegex 2 prompt = Some (w, [g0, Some letter, Some word])
      \<and> length word < 2 ^ 32"
  then obtain c where c: "letter = [c]" using letter_group_content by blast
  have n: "count_ci letter word < 2 ^ 53" using a count_ci_le [of letter word] by simp
  have ts: "Number_toString (Fin (of_nat (count_ci letter word))) = dec (int (count_ci letter word))"
    using Number_toString_int [of "int (count_ci letter word)"] n by simp
  show "analyzePrompt prompt =
          Inr \<lparr>type = Objective,
               expectedAnswer = Some (dec (int (count_ci letter word))),
               evaluationFunction = Some (count_eval (Fin (of_nat (count_ci letter word))))\<rparr>"
    unfolding analyzePrompt_def using a by (simp add: Let_def c match_all_letter ts [unfolded c])
  from n show "count_eval (Fin (of_nat (count_ci letter word))) resp =
      (if first_integer resp = Some (int (count_ci letter word)) then Fin 1 else Fin 0)" for resp
    by (rule count_eval_first_integer)
next
  fix w g0 phrase
  assume a: "match letterCountRegex 2 prompt = None
      \<and> match wordCountRegex 1 prompt = Some (w, [g0, Some phrase])
      \<and> \<not> list_all is_space phrase \<and> length phrase < 2 ^ 32"
  then have al: "array_length (split (Plus (Class is_space)) (trim phrase)) = Fin (of_nat (word_count phrase))"
    using split_word_count by blast
  have n: "word_count phrase < 2 ^ 53"
    using a word_count_le [of False phrase] by (simp add: word_count_def)
  have ts: "Number_toString (Fin (of_nat (word_count phrase))) = dec (int (word_count phrase))"
    using Number_toString_int [of "int (word_count phrase)"] n by simp
  show "analyzePrompt prompt =
          Inr \<lparr>type = Objective,
               expectedAnswer = Some (dec (int (word_count phrase))),
               evaluationFunction = Some (count_eval (Fin (of_nat (word_count phrase))))\<rparr>"
    unfolding analyzePrompt_def using a by (simp add: Let_def al ts)
  from n show "count_eval (Fin (of_nat (word_count phrase))) resp =
      (if first_integer resp = Some (int (word_count phrase)) then Fin 1 else Fin 0)" for resp
    by (rule count_eval_first_integer)
qed

lemma berry_match: "match letterCountRegex 2 (js ''How many letters r are in Strawberry'') =
    Some (js ''How many letters r are in Strawberry'', [None, Some (js ''r''), Some (js ''Strawberry'')])"
  by code_simp
lemma berry_count: "count_ci (js ''r'') (js ''Strawberry'') = 3"
  by code_simp
lemma berry_answer: "first_integer (js ''There are 3.'') = Some 3"
  by code_simp

lemma hello_letter: "match letterCountRegex 2 (js ''how many words are in hello big world'') = None"
  by code_simp
lemma hello_word: "match wordCountRegex 1 (js ''how many words are in hello big world'') =
    Some (js ''how many words are in hello big world'', [None, Some (js ''hello big world'')])"
  by code_simp
lemma hello_count: "word_count (js ''hello big world'') = 3"
  by code_simp
lemma dec_three: "dec 3 = js ''3''"
  by code_simp
lemma hello_not_blank: "\<not> list_all is_space (js ''hello big world'')"
  by code_simp

theorem counting_templates_witness:
  "match letterCountRegex 2 (js ''How many letters r are in Strawberry'') =
     Some (js ''How many letters r are in Strawberry'', [None, Some (js ''r''), Some (js ''Strawberry'')])
   \<and> count_ci (js ''r'') (js ''Strawberry'') = 3
   \<and> analyzePrompt (js ''How many letters r are in Strawberry'') =
       Inr \<lparr>type = Objective, expectedAnswer = Some (js ''3''),
            evaluationFunction = Some (count_eval (Fin 3))\<rparr>
   \<and> count_eval (Fin 3) (js ''There are 3.'') = Fin 1
   \<and> match letterCountRegex 2 (js ''how many words are in hello big world'') = None
   \<and> match wordCountRegex 1 (js ''how many words are in hello big world'') =
       Some (js ''how many words are in hello big world'', [None, Some (js ''hello big world'')])
   \<and> word_count (js ''hello big world'') = 3
   \<and> analyzePrompt (js ''how many words are in hello big world'') =
       Inr \<lparr>type = Objective, expectedAnswer = Some (js ''3''),
            evaluationFunction = Some (count_eval (Fin 3))\<rparr>"
proof -
  have l1: "length (js ''Strawberry'') < 2 ^ 32" "length (js ''hello big world'') < 2 ^ 32"
    by (simp_all add: js_def)
  from counting_templates [of "js ''How many letters r are in Strawberry''", THEN conjunct1,
      rule_format, of _ None "js ''r''" "js ''Strawberry''"] berry_match l1(1)
  have a: "analyzePrompt (js ''How many letters r are in Strawberry'') =
       Inr \<lparr>type = Objective, expectedAnswer = Some (js ''3''),
            evaluationFunction = Some (count_eval (Fin 3))\<rparr>"
    and b: "count_eval (Fin 3) (js ''There are 3.'') = Fin 1"
    by (simp_all add: berry_count dec_three berry_answer)
  from counting_templates [of "js ''how many words are in hello big world''", THEN conjunct2,
      rule_format, of _ None "js ''hello big world''"] hello_letter hello_word hello_not_blank l1(2)
  have c: "analyzePrompt (js ''how many words are in hello big world'') =
       Inr \<lparr>type = Objective, expectedAnswer = Some (js ''3''),
            evaluationFunction = Some (count_eval (Fin 3))\<rparr>"
    by (simp add: hello_count dec_three)
  from a b c berry_match berry_count hello_letter hello_word hello_count show ?thesis by simp
qed

lemma both_letter: "match letterCountRegex 2 (js ''how many letters a are in aa how many words are in b'') =
    Some (js ''how many letters a are in aa'', [None, Some (js ''a''), Some (js ''aa'')])"
  by code_simp
lemma both_word: "match wordCountRegex 1 (js ''how many letters a are in aa how many words are in b'') =
    Some (js ''how many words are in b'', [None, Some (js ''b'')])"
  by code_simp
lemma both_count: "array_length (match_all (RegExp (toLowerCase (js ''a''))) (toLowerCase (js ''aa''))) = Fin 2"
  by code_simp
lemma both_words: "word_count (js ''b'') = 1"
  by code_simp
lemma two_string: "Number_toString (Fin 2) = js ''2''"
  by code_simp

lemma blank_letter: "match letterCountRegex 2 (js ''how many words are in  '') = None"
  by code_simp
lemma blank_word: "match wordCountRegex 1 (js ''how many words are in  '') =
    Some (js ''how many words are in  '', [None, Some (js '' '')])"
  by code_simp
lemma blank_count: "array_length (split (Plus (Class is_space)) (trim (js '' ''))) = Fin 1"
  by code_simp
lemma blank_words: "word_count (js '' '') = 0"
  by code_simp
lemma one_string: "Number_toString (Fin 1) = js ''1''"
  by code_simp

text \<open>
  The claim as stated fails on a prompt that matches both counting templates: its phrase
  has one word and the expected answer is 2, the count of the letter. It also fails on a
  blank phrase, which has no word: the expected answer is 1.
\<close>

theorem counting_templates_counterexample:
  "match wordCountRegex 1 (js ''how many letters a are in aa how many words are in b'') =
     Some (js ''how many words are in b'', [None, Some (js ''b'')])
   \<and> word_count (js ''b'') = 1
   \<and> analyzePrompt (js ''how many letters a are in aa how many words are in b'') =
       Inr \<lparr>type = Objective, expectedAnswer = Some (js ''2''),
            evaluationFunction = Some (count_eval (Fin 2))\<rparr>
   \<and> match wordCountRegex 1 (js ''how many words are in  '') =
       Some (js ''how many words are in  '', [None, Some (js '' '')])
   \<and> word_count (js '' '') = 0
   \<and> analyzePrompt (js ''how many words are in  '') =
       Inr \<lparr>type = Objective, expectedAnswer = Some (js ''1''),
            evaluationFunction = Some (count_eval (Fin 1))\<rparr>"
proof -
  have a: "analyzePrompt (js ''how many letters a are in aa how many words are in b'') =
       Inr \<lparr>type = Objective, expectedAnswer = Some (js ''2''),
            evaluationFunction = Some (count_eval (Fin 2))\<rparr>"
    unfolding analyzePrompt_def both_letter by (simp add: both_count two_string Let_def)
  have b: "analyzePrompt (js ''how many words are in  '') =
       Inr \<lparr>type = Objective, expectedAnswer = Some (js ''1''),
            evaluationFunction = Some (count_eval (Fin 1))\<rparr>"
    unfolding analyzePrompt_def blank_letter blank_word by (simp add: blank_count one_string Let_def)
  from a b both_word both_words blank_word blank_words show ?thesis by simp
qed

end
